theory Spec2Isabelle
  imports Main "HOL-Library.Word" "HOL-Library.Multiset" "HOL-Library.Monad_Syntax"
begin

unbundle bit_operations_syntax

section \<open>Common types\<close>

text \<open>
  The error kinds of \<^verbatim>\<open>ucs_status_t\<close> that the modelled functions produce or pass along.
  \<open>UCS_ERR_OTHER\<close> stands for any further error code of the enumeration; its argument
  tells such codes apart.
\<close>

datatype ucs_status_t =
    UCS_OK
  | UCS_INPROGRESS
  | UCS_ERR_INVALID_PARAM
  | UCS_ERR_UNSUPPORTED
  | UCS_ERR_NO_MEMORY
  | UCS_ERR_NO_DEVICE
  | UCS_ERR_IO_ERROR
  | UCS_ERR_OTHER nat

text \<open>\<^verbatim>\<open>ucs_fatal\<close> ends the process; the model returns the failure as a value.\<close>

datatype ucs_fatal =
    Fatal_too_many_ep_configurations
  | Fatal_unsupported_atomic_mode
  | Fatal_rkey_unpack_failed ucs_status_t

datatype ucs_thread_mode_t =
    UCS_THREAD_MODE_SINGLE
  | UCS_THREAD_MODE_SERIALIZED
  | UCS_THREAD_MODE_MULTI

section \<open>Worker: thread mode and lock selection (ucp\_worker.c)\<close>

datatype ucp_mt_type_t = UCP_MT_TYPE_NONE | UCP_MT_TYPE_SPINLOCK | UCP_MT_TYPE_MUTEX

text \<open>
  The fields of \<^verbatim>\<open>ucp_worker_params_t\<close> that \<^verbatim>\<open>ucp_worker_create\<close> reads when it derives the
  thread mode: whether \<^verbatim>\<open>UCP_WORKER_PARAM_FIELD_THREAD_MODE\<close> is set in \<^verbatim>\<open>field_mask\<close>, and
  the \<^verbatim>\<open>thread_mode\<close> field (here \<open>worker_thread_mode_param\<close>).
\<close>

record ucp_worker_params_t =
  field_mask_thread_mode :: bool
  worker_thread_mode_param :: ucs_thread_mode_t

text \<open>
  Lines 480-492 of \<^verbatim>\<open>ucp_worker_create\<close>: the thread mode is the requested one when the
  field is present and \<open>SINGLE\<close> otherwise; the lock type is \<open>NONE\<close> unless the mode is
  \<open>MULTI\<close>, where the context's \<^verbatim>\<open>use_mt_mutex\<close> chooses between mutex and spinlock.
\<close>

definition worker_thread_mode :: "ucp_worker_params_t \<Rightarrow> ucs_thread_mode_t" where
  "worker_thread_mode wparams =
     (if field_mask_thread_mode wparams then worker_thread_mode_param wparams
      else UCS_THREAD_MODE_SINGLE)"

definition ucp_worker_create_mt_type :: "bool \<Rightarrow> ucp_worker_params_t \<Rightarrow> ucp_mt_type_t" where
  "ucp_worker_create_mt_type use_mt_mutex wparams =
     (if worker_thread_mode wparams \<noteq> UCS_THREAD_MODE_MULTI then UCP_MT_TYPE_NONE
      else if use_mt_mutex then UCP_MT_TYPE_MUTEX
      else UCP_MT_TYPE_SPINLOCK)"

text \<open>
  Modelled from the spec: the macro \<^verbatim>\<open>UCP_THREAD_IS_REQUIRED\<close> lives in a header that is not
  part of the sources at hand. A lock is required exactly when a synchronization primitive
  (mutex or spinlock) was installed, that is when the lock type is not \<open>NONE\<close>.
\<close>

definition UCP_THREAD_IS_REQUIRED :: "ucp_mt_type_t \<Rightarrow> bool" where
  "UCP_THREAD_IS_REQUIRED mt_type = (mt_type \<noteq> UCP_MT_TYPE_NONE)"

text \<open>
  \<^verbatim>\<open>ucp_worker_query\<close>: the attribute's \<^verbatim>\<open>thread_mode\<close> is written only when the caller asked
  for it in \<^verbatim>\<open>field_mask\<close>; otherwise the caller's value \<open>old\<close> stays. The status is always
  \<open>UCS_OK\<close>.
\<close>

definition ucp_worker_query :: "ucp_mt_type_t \<Rightarrow> bool \<Rightarrow> ucs_thread_mode_t \<Rightarrow>
    ucs_status_t \<times> ucs_thread_mode_t" where
  "ucp_worker_query mt_type attr_field_thread_mode old =
     (UCS_OK,
      if attr_field_thread_mode
      then (if UCP_THREAD_IS_REQUIRED mt_type then UCS_THREAD_MODE_MULTI
            else UCS_THREAD_MODE_SINGLE)
      else old)"

section \<open>Multi-thread perf driver: status aggregation (libperf.c)\<close>

text \<open>
  Lines 1386-1391 of \<^verbatim>\<open>ucx_perf_thread_spawn\<close>: after the parallel region the driver walks
  the shared array of per-thread statuses from thread \<open>0\<close> to \<open>nti - 1\<close>; every non-OK slot
  is logged and assigned to \<open>status\<close>. The loop has no \<^verbatim>\<open>break\<close>.
\<close>

function thread_status_loop ::
    "ucs_status_t list \<Rightarrow> nat \<Rightarrow> nat \<Rightarrow> ucs_status_t \<Rightarrow> ucs_status_t" where
  "thread_status_loop statuses nti ti status =
     (if ti < nti
      then thread_status_loop statuses nti (ti + 1)
             (if UCS_OK \<noteq> statuses ! ti then statuses ! ti else status)
      else status)"
  by pat_completeness auto
termination
  by (relation "measure (\<lambda>(statuses, nti, ti, status). nti - ti)") auto

declare thread_status_loop.simps [simp del]

text \<open>
  \<^verbatim>\<open>ucx_perf_thread_spawn\<close> (the OpenMP build). \<open>setup_status\<close> is what the API's setup
  returned; \<open>statuses\<close> is the content of the shared array once all \<open>nti\<close> threads have left
  the parallel region (the array is allocated zeroed, and \<open>UCS_OK\<close> is zero). A failed setup
  returns at once.
\<close>

definition ucx_perf_thread_spawn ::
    "ucs_status_t \<Rightarrow> ucs_status_t list \<Rightarrow> nat \<Rightarrow> ucs_status_t" where
  "ucx_perf_thread_spawn setup_status statuses nti =
     (if UCS_OK \<noteq> setup_status then setup_status
      else thread_status_loop statuses nti 0 setup_status)"

section \<open>Collective status exchange (libperf.c)\<close>

text \<open>
  Modelled from the spec: the rendezvous collaborator (RTE) is outside the sources. Its
  contract: \<^verbatim>\<open>post_vec\<close> enqueues the caller's payload for broadcast, \<^verbatim>\<open>exchange_vec\<close> commits
  the exchange, and \<^verbatim>\<open>recv(i)\<close> retrieves peer \<open>i\<close>'s payload. The state of one exchange is
  the list \<open>posted\<close> of the payloads, one slot per peer of the group.
\<close>

definition rte_post_vec :: "ucs_status_t list \<Rightarrow> nat \<Rightarrow> ucs_status_t \<Rightarrow> ucs_status_t list" where
  "rte_post_vec posted group_index payload = posted[group_index := payload]"

definition rte_recv :: "ucs_status_t list \<Rightarrow> nat \<Rightarrow> ucs_status_t" where
  "rte_recv posted i = posted ! i"

text \<open>
  The receive loop of \<^verbatim>\<open>ucp_perf_test_exchange_status\<close> (lines 866-871): each received
  status overwrites the local variable \<open>status\<close>, and a non-OK one is stored in
  \<open>collective_status\<close>.
\<close>

function exchange_status_loop ::
    "ucs_status_t list \<Rightarrow> nat \<Rightarrow> nat \<Rightarrow> ucs_status_t \<Rightarrow> ucs_status_t" where
  "exchange_status_loop posted group_size i collective_status =
     (if i < group_size
      then (let status = rte_recv posted i
            in exchange_status_loop posted group_size (i + 1)
                 (if status \<noteq> UCS_OK then status else collective_status))
      else collective_status)"
  by pat_completeness auto
termination
  by (relation "measure (\<lambda>(posted, group_size, i, c). group_size - i)") auto

declare exchange_status_loop.simps [simp del]

text \<open>
  \<^verbatim>\<open>ucp_perf_test_exchange_status\<close>: \<open>others\<close> holds what the peers of the group contribute
  (the slot of the caller is overwritten by its own post), \<open>group_index\<close> is the caller's
  index and \<open>status\<close> its local status. The group size is the number of slots.
\<close>

definition ucp_perf_test_exchange_status ::
    "ucs_status_t list \<Rightarrow> nat \<Rightarrow> ucs_status_t \<Rightarrow> ucs_status_t" where
  "ucp_perf_test_exchange_status others group_index status =
     (let posted = rte_post_vec others group_index status
      in exchange_status_loop posted (length posted) 0 UCS_OK)"


section \<open>Perf context, reset and warmup (libperf.c)\<close>

type_synonym ucs_time_t = "64 word"
type_synonym ucx_perf_counter_t = "64 word"
type_synonym size_t = "64 word"

definition UINT64_MAX :: "64 word" where
  "UINT64_MAX = 0xFFFFFFFFFFFFFFFF"

datatype ucx_perf_api_t = UCX_PERF_API_UCT | UCX_PERF_API_UCP | UCX_PERF_API_LAST

datatype ucx_perf_cmd_t =
    UCX_PERF_CMD_AM
  | UCX_PERF_CMD_PUT
  | UCX_PERF_CMD_GET
  | UCX_PERF_CMD_ADD
  | UCX_PERF_CMD_FADD
  | UCX_PERF_CMD_SWAP
  | UCX_PERF_CMD_CSWAP
  | UCX_PERF_CMD_TAG
  | UCX_PERF_CMD_LAST

datatype ucx_perf_test_type_t =
    UCX_PERF_TEST_TYPE_PINGPONG
  | UCX_PERF_TEST_TYPE_STREAM_UNI
  | UCX_PERF_TEST_TYPE_LAST

datatype uct_perf_data_layout_t =
    UCT_PERF_DATA_LAYOUT_SHORT
  | UCT_PERF_DATA_LAYOUT_BCOPY
  | UCT_PERF_DATA_LAYOUT_ZCOPY
  | UCT_PERF_DATA_LAYOUT_LAST

text \<open>
  The C code computes latencies, bandwidths and the time bound in \<^verbatim>\<open>double\<close>. The model
  keeps the type of doubles abstract (\<open>'d\<close>) and takes the operations the code applies to
  them as a record: the conversion \<^verbatim>\<open>(double)\<close> of a 64-bit unsigned value, division,
  multiplication, the literals \<open>0.0\<close>, \<open>1.0\<close>, \<open>2.0\<close>, \<open>-1\<close>, the comparisons \<open>==\<close> and \<open>>\<close>, and
  \<^verbatim>\<open>ucs_time_from_sec\<close> (seconds to clock ticks, an inline function of a header that is not
  part of the sources at hand).
\<close>

record 'd double_ops =
  d_of_u64 :: "64 word \<Rightarrow> 'd"
  d_div :: "'d \<Rightarrow> 'd \<Rightarrow> 'd"
  d_mul :: "'d \<Rightarrow> 'd \<Rightarrow> 'd"
  d_zero :: 'd
  d_one :: 'd
  d_two :: 'd
  d_neg_one :: 'd
  d_eq :: "'d \<Rightarrow> 'd \<Rightarrow> bool"
  d_gt :: "'d \<Rightarrow> 'd \<Rightarrow> bool"
  ucs_time_from_sec :: "'d \<Rightarrow> ucs_time_t"

text \<open>
  \<^verbatim>\<open>ucx_perf_params_t\<close>: the fields the modelled functions read. \<open>msg_size_list\<close> holds the
  \<^verbatim>\<open>msg_size_cnt\<close> entries of the array, so \<^verbatim>\<open>msg_size_cnt\<close> is its length.
  \<open>max_outstanding\<close> and \<open>uct_fc_window\<close> carry the numeric value of the C field.
  \<open>flags\<close> is the set of the flag bits that are set. In the functions modelled here the
  flags select log output only, with one exception: in \<^verbatim>\<open>ucp_perf_test_setup_endpoints\<close>
  the flag \<open>VERBOSE\<close> turns a failed remote-key unpack into \<^verbatim>\<open>ucs_fatal\<close>.
\<close>

datatype ucx_perf_test_flag =
    UCX_PERF_TEST_FLAG_VERBOSE | UCX_PERF_TEST_FLAG_ONE_SIDED | UCX_PERF_TEST_FLAG_MAP_NONBLOCK

record 'd ucx_perf_params_t =
  api :: ucx_perf_api_t
  command :: ucx_perf_cmd_t
  test_type :: ucx_perf_test_type_t
  thread_mode :: ucs_thread_mode_t
  thread_count :: nat
  msg_size_list :: "size_t list"
  iov_stride :: size_t
  am_hdr_size :: size_t
  max_outstanding :: int
  warmup_iter :: ucx_perf_counter_t
  max_iter :: ucx_perf_counter_t
  max_time :: 'd
  report_interval :: 'd
  uct_data_layout :: uct_perf_data_layout_t
  uct_fc_window :: int
  flags :: "ucx_perf_test_flag set"

record perf_counters =
  time :: ucs_time_t
  msgs :: ucx_perf_counter_t
  bytes :: ucx_perf_counter_t
  iters :: ucx_perf_counter_t

text \<open>
  \<^verbatim>\<open>ucx_perf_context_t\<close>. The fields \<^verbatim>\<open>max_iter\<close> and \<^verbatim>\<open>report_interval\<close> of the context are
  named \<open>perf_max_iter\<close> and \<open>perf_report_interval\<close> here, apart from the parameters of the
  same name. \<open>timing_queue\<close> is the array of \<^verbatim>\<open>TIMING_QUEUE_SIZE\<close> samples.
\<close>

record 'd ucx_perf_context_t =
  params :: "'d ucx_perf_params_t"
  start_time :: ucs_time_t
  prev_time :: ucs_time_t
  end_time :: ucs_time_t
  perf_max_iter :: ucx_perf_counter_t
  perf_report_interval :: ucs_time_t
  current :: perf_counters
  prev :: perf_counters
  timing_queue_head :: nat
  offset :: size_t
  timing_queue :: "ucs_time_t list"

text \<open>
  The loop at the end of \<^verbatim>\<open>ucx_perf_test_reset\<close> (lines 194-196). \<^verbatim>\<open>TIMING_QUEUE_SIZE\<close> is a
  constant of a header that is not part of the sources at hand; it is a parameter here.
\<close>

function reset_timing_queue :: "ucs_time_t list \<Rightarrow> nat \<Rightarrow> nat \<Rightarrow> ucs_time_t list" where
  "reset_timing_queue tq TIMING_QUEUE_SIZE i =
     (if i < TIMING_QUEUE_SIZE
      then reset_timing_queue (tq[i := 0]) TIMING_QUEUE_SIZE (i + 1)
      else tq)"
  by pat_completeness auto
termination
  by (relation "measure (\<lambda>(tq, n, i). n - i)") auto

declare reset_timing_queue.simps [simp del]

text \<open>
  \<^verbatim>\<open>ucx_perf_test_reset\<close>. \<open>now\<close> is the value that \<^verbatim>\<open>ucs_get_time()\<close> returns.
\<close>

definition ucx_perf_test_reset ::
    "'d double_ops \<Rightarrow> nat \<Rightarrow> ucs_time_t \<Rightarrow> 'd ucx_perf_context_t \<Rightarrow> 'd ucx_perf_params_t
      \<Rightarrow> 'd ucx_perf_context_t" where
  "ucx_perf_test_reset ops TIMING_QUEUE_SIZE now perf prms =
     perf\<lparr> params := prms,
           start_time := now,
           prev_time := now,
           end_time := (if d_eq ops (max_time prms) (d_zero ops) then UINT64_MAX
                        else ucs_time_from_sec ops (max_time prms) + now),
           perf_max_iter := (if max_iter prms = 0 then UINT64_MAX else max_iter prms),
           perf_report_interval := ucs_time_from_sec ops (report_interval prms),
           current := \<lparr>time = 0, msgs = 0, bytes = 0, iters = 0\<rparr>,
           prev := \<lparr>time = now, msgs = 0, bytes = 0, iters = 0\<rparr>,
           timing_queue_head := 0,
           offset := 0,
           timing_queue := reset_timing_queue (timing_queue perf) TIMING_QUEUE_SIZE 0 \<rparr>"

text \<open>
  \<^verbatim>\<open>ucx_perf_set_warmup\<close>. \<^verbatim>\<open>ucs_min(a, b)\<close> is the smaller of the two, the division is the
  unsigned one, and \<open>-1\<close> stored in the unsigned \<^verbatim>\<open>report_interval\<close> is its largest value.
\<close>

definition ucs_min :: "'a::linorder \<Rightarrow> 'a \<Rightarrow> 'a" where
  "ucs_min a b = (if a < b then a else b)"

definition ucx_perf_set_warmup ::
    "'d ucx_perf_context_t \<Rightarrow> 'd ucx_perf_params_t \<Rightarrow> 'd ucx_perf_context_t" where
  "ucx_perf_set_warmup perf prms =
     perf\<lparr> perf_max_iter := ucs_min (warmup_iter prms) (max_iter prms div 10),
           perf_report_interval := - 1 \<rparr>"

text \<open>
  \<^verbatim>\<open>ucx_perf_run\<close>. The API-specific \<^verbatim>\<open>setup\<close> and \<^verbatim>\<open>run\<close>, the multi-thread driver and the
  clock are outside this function; they enter as parameters: \<open>api_setup\<close> and \<open>api_run\<close> map the
  context to a status and the context they leave behind, \<open>spawn_status\<close> is what
  \<^verbatim>\<open>ucx_perf_thread_spawn\<close> returns, \<open>now1\<close> and \<open>now2\<close> are the clock readings of the first
  and the second reset, \<open>perf0\<close> is the uninitialised context on the stack. The result is
  the returned status with the calls the function makes, in order; a call that takes the
  context records the context it is given.
\<close>

datatype 'd perf_event =
    Ev_reset
  | Ev_setup
  | Ev_set_warmup
  | Ev_run "'d ucx_perf_context_t"
  | Ev_barrier
  | Ev_calc_result "'d ucx_perf_context_t"
  | Ev_report
  | Ev_cleanup
  | Ev_thread_spawn

definition ucx_perf_run_test ::
    "('d ucx_perf_context_t \<Rightarrow> ucs_status_t \<times> 'd ucx_perf_context_t) \<Rightarrow>
     'd ucx_perf_context_t \<Rightarrow> 'd perf_event list \<Rightarrow> ucs_status_t \<times> 'd perf_event list" where
  "ucx_perf_run_test api_run perf evs =
     (let (status, perf') = api_run perf
      in (status,
          evs @ [Ev_run perf, Ev_barrier] @
          (if status = UCS_OK then [Ev_calc_result perf', Ev_report] else []) @
          [Ev_cleanup]))"

definition ucx_perf_run ::
    "'d double_ops \<Rightarrow> nat \<Rightarrow> ucs_time_t \<Rightarrow> ucs_time_t \<Rightarrow>
     ('d ucx_perf_context_t \<Rightarrow> 'd ucx_perf_params_t \<Rightarrow> ucs_status_t \<times> 'd ucx_perf_context_t) \<Rightarrow>
     ('d ucx_perf_context_t \<Rightarrow> ucs_status_t \<times> 'd ucx_perf_context_t) \<Rightarrow>
     ucs_status_t \<Rightarrow> 'd ucx_perf_context_t \<Rightarrow> 'd ucx_perf_params_t \<Rightarrow>
     ucs_status_t \<times> 'd perf_event list" where
  "ucx_perf_run ops TIMING_QUEUE_SIZE now1 now2 api_setup api_run spawn_status perf0 prms =
     (if command prms = UCX_PERF_CMD_LAST then (UCS_ERR_INVALID_PARAM, [])
      else if api prms \<noteq> UCX_PERF_API_UCT \<and> api prms \<noteq> UCX_PERF_API_UCP
      then (UCS_ERR_INVALID_PARAM, [])
      else if UCS_THREAD_MODE_SINGLE \<noteq> thread_mode prms
      then (spawn_status, [Ev_thread_spawn])
      else
        let perf1 = ucx_perf_test_reset ops TIMING_QUEUE_SIZE now1 perf0 prms;
            (status, perf2) = api_setup perf1 prms
        in if status \<noteq> UCS_OK then (status, [Ev_reset, Ev_setup])
           else if warmup_iter prms > 0
           then
             let perf3 = ucx_perf_set_warmup perf2 prms;
                 (status, perf4) = api_run perf3
             in if status \<noteq> UCS_OK
                then (status, [Ev_reset, Ev_setup, Ev_set_warmup, Ev_run perf3, Ev_cleanup])
                else ucx_perf_run_test api_run
                       (ucx_perf_test_reset ops TIMING_QUEUE_SIZE now2 perf4 prms)
                       [Ev_reset, Ev_setup, Ev_set_warmup, Ev_run perf3, Ev_barrier, Ev_reset]
           else ucx_perf_run_test api_run perf2 [Ev_reset, Ev_setup])"


section \<open>Atomic-resource selection (ucp\_worker.c)\<close>

text \<open>
  Feature and capability masks are modelled as sets of named flags: every flag constant of
  the C headers is one bit, \<open>|\<close> is union, \<open>&\<close> with a non-zero test is a non-empty
  intersection, and \<^verbatim>\<open>ucs_test_all_flags(value, mask)\<close> is \<open>mask \<subseteq> value\<close>. Only the flags
  that the modelled functions name are listed.
\<close>

datatype ucp_feature =
    UCP_FEATURE_TAG | UCP_FEATURE_RMA | UCP_FEATURE_AMO32 | UCP_FEATURE_AMO64
  | UCP_FEATURE_WAKEUP

datatype uct_iface_flag =
    UCT_IFACE_FLAG_AM_SHORT | UCT_IFACE_FLAG_AM_BCOPY | UCT_IFACE_FLAG_AM_ZCOPY
  | UCT_IFACE_FLAG_AM_CB_SYNC
  | UCT_IFACE_FLAG_PUT_SHORT | UCT_IFACE_FLAG_PUT_BCOPY | UCT_IFACE_FLAG_PUT_ZCOPY
  | UCT_IFACE_FLAG_GET_BCOPY | UCT_IFACE_FLAG_GET_ZCOPY
  | UCT_IFACE_FLAG_ATOMIC_ADD32 | UCT_IFACE_FLAG_ATOMIC_ADD64
  | UCT_IFACE_FLAG_ATOMIC_FADD32 | UCT_IFACE_FLAG_ATOMIC_FADD64
  | UCT_IFACE_FLAG_ATOMIC_SWAP32 | UCT_IFACE_FLAG_ATOMIC_SWAP64
  | UCT_IFACE_FLAG_ATOMIC_CSWAP32 | UCT_IFACE_FLAG_ATOMIC_CSWAP64
  | UCT_IFACE_FLAG_ATOMIC_CPU | UCT_IFACE_FLAG_ATOMIC_DEVICE

datatype uct_md_flag = UCT_MD_FLAG_ALLOC | UCT_MD_FLAG_REG

datatype ucp_atomic_mode_t =
    UCP_ATOMIC_MODE_CPU | UCP_ATOMIC_MODE_DEVICE | UCP_ATOMIC_MODE_GUESS | UCP_ATOMIC_MODE_LAST

definition ucs_test_all_flags :: "'f set \<Rightarrow> 'f set \<Rightarrow> bool" where
  "ucs_test_all_flags v m = (m \<subseteq> v)"

text \<open>\<^verbatim>\<open>UCS_BIT(i)\<close> is \<open>1ul << i\<close>; \<^verbatim>\<open>atomic_tls\<close> and \<^verbatim>\<open>supp_tls\<close> are 64-bit masks.\<close>

definition UCS_BIT :: "nat \<Rightarrow> 64 word" where
  "UCS_BIT i = push_bit i 1"

text \<open>
  The fields read by the selection: of a transport resource its memory-domain index and
  device name; of an interface's attributes its capability flags and priority; of the
  context the resources, the capability flags of each memory domain, the features, the
  atomic mode, and the value of \<^verbatim>\<open>ucp_context_uct_atomic_iface_flags\<close> (an inline function
  of a header that is not part of the sources at hand).
\<close>

record ucp_tl_resource_desc_t =
  md_index :: nat
  dev_name :: string

record worker_iface_attr =
  cap_flags :: "uct_iface_flag set"
  priority :: "8 word"

record ucp_context_t =
  num_tls :: nat
  tl_rscs :: "ucp_tl_resource_desc_t list"
  tl_mds :: "uct_md_flag set list"
  features :: "ucp_feature set"
  atomic_mode :: ucp_atomic_mode_t
  uct_atomic_iface_flags :: "uct_iface_flag set"

definition ucp_worker_enable_atomic_tl :: "64 word \<Rightarrow> nat \<Rightarrow> 64 word" where
  "ucp_worker_enable_atomic_tl atomic_tls rsc_index = atomic_tls OR UCS_BIT rsc_index"

text \<open>\<^verbatim>\<open>ucp_worker_init_cpu_atomics\<close>: every interface with host-based atomics is enabled.\<close>

function cpu_atomics_loop ::
    "ucp_context_t \<Rightarrow> worker_iface_attr list \<Rightarrow> nat \<Rightarrow> 64 word \<Rightarrow> 64 word" where
  "cpu_atomics_loop context iface_attrs rsc_index atomic_tls =
     (if rsc_index < num_tls context
      then cpu_atomics_loop context iface_attrs (rsc_index + 1)
             (if UCT_IFACE_FLAG_ATOMIC_CPU \<in> cap_flags (iface_attrs ! rsc_index)
              then ucp_worker_enable_atomic_tl atomic_tls rsc_index
              else atomic_tls)
      else atomic_tls)"
  by pat_completeness auto
termination
  by (relation "measure (\<lambda>(c, a, i, m). num_tls c - i)") auto

declare cpu_atomics_loop.simps [simp del]

definition ucp_worker_init_cpu_atomics ::
    "ucp_context_t \<Rightarrow> worker_iface_attr list \<Rightarrow> 64 word \<Rightarrow> 64 word" where
  "ucp_worker_init_cpu_atomics context iface_attrs atomic_tls =
     cpu_atomics_loop context iface_attrs 0 atomic_tls"

text \<open>
  \<^verbatim>\<open>ucp_worker_init_device_atomics\<close>. The first loop (lines 337-361) collects the capable
  resources in \<open>supp_tls\<close> and keeps the best one by score, ties broken by priority;
  \<open>score_func j\<close> is the value of \<^verbatim>\<open>ucp_wireup_amo_score_func\<close> for resource \<open>j\<close>. Without a
  best resource the function returns ("no support for atomics"); otherwise the second
  loop (lines 369-378) enables every capable resource on the memory domain and device of
  the best one; \<^verbatim>\<open>strncmp\<close> compares at most \<^verbatim>\<open>UCT_DEVICE_NAME_MAX\<close> characters.
\<close>

record 'd device_select =
  supp_tls :: "64 word"
  best_rsc :: "ucp_tl_resource_desc_t option"
  best_score :: 'd
  best_priority :: "8 word"

function device_select_loop ::
    "'d double_ops \<Rightarrow> (nat \<Rightarrow> 'd) \<Rightarrow> ucp_context_t \<Rightarrow> worker_iface_attr list \<Rightarrow>
     uct_iface_flag set \<Rightarrow> nat \<Rightarrow> 'd device_select \<Rightarrow> 'd device_select" where
  "device_select_loop ops score_func context iface_attrs iface_cap_flags rsc_index st =
     (if rsc_index < num_tls context
      then
        let rsc = tl_rscs context ! rsc_index;
            md_flags = tl_mds context ! md_index rsc;
            iface_attr = iface_attrs ! rsc_index
        in if UCT_MD_FLAG_REG \<notin> md_flags \<or>
              \<not> ucs_test_all_flags (cap_flags iface_attr) iface_cap_flags
           then device_select_loop ops score_func context iface_attrs iface_cap_flags
                  (rsc_index + 1) st
           else
             let st1 = st\<lparr> supp_tls := supp_tls st OR UCS_BIT rsc_index \<rparr>;
                 score = score_func rsc_index
             in device_select_loop ops score_func context iface_attrs iface_cap_flags
                  (rsc_index + 1)
                  (if d_gt ops score (best_score st1) \<or>
                      (d_eq ops score (best_score st1) \<and> priority iface_attr > best_priority st1)
                   then st1\<lparr> best_rsc := Some rsc, best_score := score,
                             best_priority := priority iface_attr \<rparr>
                   else st1)
      else st)"
  by pat_completeness auto
termination
  by (relation "measure (\<lambda>(ops, sc, c, a, f, i, st). num_tls c - i)") auto

declare device_select_loop.simps [simp del]

definition strncmp_eq :: "string \<Rightarrow> string \<Rightarrow> nat \<Rightarrow> bool" where
  "strncmp_eq s1 s2 n = (take n s1 = take n s2)"

function device_enable_loop ::
    "nat \<Rightarrow> ucp_context_t \<Rightarrow> 64 word \<Rightarrow> ucp_tl_resource_desc_t \<Rightarrow> nat \<Rightarrow> 64 word \<Rightarrow> 64 word"
    where
  "device_enable_loop UCT_DEVICE_NAME_MAX context supp best rsc_index atomic_tls =
     (if rsc_index < num_tls context
      then
        let rsc = tl_rscs context ! rsc_index
        in device_enable_loop UCT_DEVICE_NAME_MAX context supp best (rsc_index + 1)
             (if supp AND UCS_BIT rsc_index \<noteq> 0 \<and>
                 md_index rsc = md_index best \<and>
                 strncmp_eq (dev_name rsc) (dev_name best) UCT_DEVICE_NAME_MAX
              then ucp_worker_enable_atomic_tl atomic_tls rsc_index
              else atomic_tls)
      else atomic_tls)"
  by pat_completeness auto
termination
  by (relation "measure (\<lambda>(n, c, s, b, i, m). num_tls c - i)") auto

declare device_enable_loop.simps [simp del]

definition ucp_worker_init_device_atomics ::
    "'d double_ops \<Rightarrow> (nat \<Rightarrow> 'd) \<Rightarrow> nat \<Rightarrow> ucp_context_t \<Rightarrow> worker_iface_attr list \<Rightarrow>
     64 word \<Rightarrow> 64 word" where
  "ucp_worker_init_device_atomics ops score_func UCT_DEVICE_NAME_MAX context iface_attrs
       atomic_tls =
     (let iface_cap_flags = uct_atomic_iface_flags context \<union> {UCT_IFACE_FLAG_ATOMIC_DEVICE};
          st = device_select_loop ops score_func context iface_attrs iface_cap_flags 0
                 \<lparr> supp_tls = 0, best_rsc = None, best_score = d_neg_one ops,
                   best_priority = 0 \<rparr>
      in case best_rsc st of
           None \<Rightarrow> atomic_tls
         | Some best \<Rightarrow>
             device_enable_loop UCT_DEVICE_NAME_MAX context (supp_tls st) best 0 atomic_tls)"

text \<open>\<^verbatim>\<open>ucp_worker_init_guess_atomics\<close>: device policy if any interface has device atomics.\<close>

function accumulate_flags_loop ::
    "ucp_context_t \<Rightarrow> worker_iface_attr list \<Rightarrow> nat \<Rightarrow> uct_iface_flag set \<Rightarrow>
     uct_iface_flag set" where
  "accumulate_flags_loop context iface_attrs rsc_index accumulated_flags =
     (if rsc_index < num_tls context
      then accumulate_flags_loop context iface_attrs (rsc_index + 1)
             (accumulated_flags \<union> cap_flags (iface_attrs ! rsc_index))
      else accumulated_flags)"
  by pat_completeness auto
termination
  by (relation "measure (\<lambda>(c, a, i, f). num_tls c - i)") auto

declare accumulate_flags_loop.simps [simp del]

definition ucp_worker_init_guess_atomics ::
    "'d double_ops \<Rightarrow> (nat \<Rightarrow> 'd) \<Rightarrow> nat \<Rightarrow> ucp_context_t \<Rightarrow> worker_iface_attr list \<Rightarrow>
     64 word \<Rightarrow> 64 word" where
  "ucp_worker_init_guess_atomics ops score_func UCT_DEVICE_NAME_MAX context iface_attrs
       atomic_tls =
     (if UCT_IFACE_FLAG_ATOMIC_DEVICE \<in> accumulate_flags_loop context iface_attrs 0 {}
      then ucp_worker_init_device_atomics ops score_func UCT_DEVICE_NAME_MAX context
             iface_attrs atomic_tls
      else ucp_worker_init_cpu_atomics context iface_attrs atomic_tls)"

text \<open>
  \<^verbatim>\<open>ucp_worker_init_atomic_tls\<close>: the mask starts empty and is filled only when the features
  include 32-bit or 64-bit atomics; an atomic mode outside the three policies is fatal.
\<close>

definition ucp_worker_init_atomic_tls ::
    "'d double_ops \<Rightarrow> (nat \<Rightarrow> 'd) \<Rightarrow> nat \<Rightarrow> ucp_context_t \<Rightarrow> worker_iface_attr list \<Rightarrow>
     ucs_fatal + 64 word" where
  "ucp_worker_init_atomic_tls ops score_func UCT_DEVICE_NAME_MAX context iface_attrs =
     (let atomic_tls = 0
      in if features context \<inter> {UCP_FEATURE_AMO32, UCP_FEATURE_AMO64} \<noteq> {}
         then (case atomic_mode context of
                 UCP_ATOMIC_MODE_CPU \<Rightarrow>
                   Inr (ucp_worker_init_cpu_atomics context iface_attrs atomic_tls)
               | UCP_ATOMIC_MODE_DEVICE \<Rightarrow>
                   Inr (ucp_worker_init_device_atomics ops score_func UCT_DEVICE_NAME_MAX
                          context iface_attrs atomic_tls)
               | UCP_ATOMIC_MODE_GUESS \<Rightarrow>
                   Inr (ucp_worker_init_guess_atomics ops score_func UCT_DEVICE_NAME_MAX
                          context iface_attrs atomic_tls)
               | UCP_ATOMIC_MODE_LAST \<Rightarrow> Inl Fatal_unsupported_atomic_mode)
         else Inr atomic_tls)"

text \<open>
  A resource is capable of device atomics when its memory domain can register memory and
  its interface has all required atomic flags and \<open>ATOMIC_DEVICE\<close>; it beats the initial
  best (score \<open>-1\<close>, priority \<open>0\<close>) when its score is greater, or equal with a priority
  above zero.
\<close>

definition atomic_device_capable ::
    "ucp_context_t \<Rightarrow> worker_iface_attr list \<Rightarrow> nat \<Rightarrow> bool" where
  "atomic_device_capable context iface_attrs j \<longleftrightarrow>
     UCT_MD_FLAG_REG \<in> tl_mds context ! md_index (tl_rscs context ! j) \<and>
     uct_atomic_iface_flags context \<union> {UCT_IFACE_FLAG_ATOMIC_DEVICE}
       \<subseteq> cap_flags (iface_attrs ! j)"

definition beats_initial_best ::
    "'d double_ops \<Rightarrow> (nat \<Rightarrow> 'd) \<Rightarrow> worker_iface_attr list \<Rightarrow> nat \<Rightarrow> bool" where
  "beats_initial_best ops score_func iface_attrs j \<longleftrightarrow>
     d_gt ops (score_func j) (d_neg_one ops) \<or>
     (d_eq ops (score_func j) (d_neg_one ops) \<and> priority (iface_attrs ! j) > 0)"

section \<open>Parameter and capability checks (libperf.c)\<close>

text \<open>
  Modelled from the spec: \<^verbatim>\<open>ucx_perf_get_message_size\<close> is an inline function of a header
  that is not part of the sources at hand. It is the total message size, the sum of the
  entries of the message-size list (in \<^verbatim>\<open>size_t\<close>).
\<close>

definition ucx_perf_get_message_size :: "('d, 'x) ucx_perf_params_t_scheme \<Rightarrow> size_t" where
  "ucx_perf_get_message_size prms = foldl (+) 0 (msg_size_list prms)"

text \<open>
  \<^verbatim>\<open>ucx_perf_test_check_params\<close>, the check shared by both APIs: the message size is at
  least 1, \<^verbatim>\<open>max_outstanding\<close> is at least 1, and with a non-zero stride no entry of the
  list exceeds it (the loop of lines 282-290).
\<close>

function stride_check_loop :: "size_t list \<Rightarrow> size_t \<Rightarrow> nat \<Rightarrow> ucs_status_t" where
  "stride_check_loop sizes stride it =
     (if it < length sizes
      then (if sizes ! it > stride then UCS_ERR_INVALID_PARAM
            else stride_check_loop sizes stride (it + 1))
      else UCS_OK)"
  by pat_completeness auto
termination
  by (relation "measure (\<lambda>(sizes, stride, it). length sizes - it)") auto

declare stride_check_loop.simps [simp del]

definition ucx_perf_test_check_params :: "('d, 'x) ucx_perf_params_t_scheme \<Rightarrow> ucs_status_t" where
  "ucx_perf_test_check_params prms =
     (if ucx_perf_get_message_size prms < 1 then UCS_ERR_INVALID_PARAM
      else if max_outstanding prms < 1 then UCS_ERR_INVALID_PARAM
      else if iov_stride prms \<noteq> 0
      then stride_check_loop (msg_size_list prms) (iov_stride prms) 0
      else UCS_OK)"

text \<open>
  \<^verbatim>\<open>ucp_perf_test_check_params\<close> declares its local \<^verbatim>\<open>message_size\<close> with the type
  \<^verbatim>\<open>ucs_status_t\<close> (line 694), so the \<^verbatim>\<open>size_t\<close> total is converted to that enumeration type
  and, for the comparisons with \<^verbatim>\<open>sizeof\<close>, back to \<^verbatim>\<open>size_t\<close>. The enumeration has negative
  members, hence a signed representation; its width \<open>status_bits\<close> is fixed by a header
  that is not part of the sources at hand and is a parameter. The conversion keeps the low
  \<open>status_bits\<close> bits and extends the sign.
\<close>

definition size_as_ucs_status_t :: "nat \<Rightarrow> size_t \<Rightarrow> size_t" where
  "size_as_ucs_status_t status_bits x = signed_take_bit (status_bits - 1) x"

text \<open>
  \<^verbatim>\<open>ucp_perf_test_check_params\<close>: the status and the feature set written through the
  pointer (\<open>None\<close> when the function returns before writing it).
\<close>

definition ucp_perf_test_check_params ::
    "nat \<Rightarrow> ('d, 'x) ucx_perf_params_t_scheme \<Rightarrow> ucs_status_t \<times> ucp_feature set option" where
  "ucp_perf_test_check_params status_bits prms =
     (let message_size = size_as_ucs_status_t status_bits (ucx_perf_get_message_size prms)
      in if command prms = UCX_PERF_CMD_PUT \<or> command prms = UCX_PERF_CMD_GET
         then (ucx_perf_test_check_params prms, Some {UCP_FEATURE_RMA})
         else if command prms = UCX_PERF_CMD_ADD \<or> command prms = UCX_PERF_CMD_FADD \<or>
                 command prms = UCX_PERF_CMD_SWAP \<or> command prms = UCX_PERF_CMD_CSWAP
         then (if message_size = 4
               then (ucx_perf_test_check_params prms, Some {UCP_FEATURE_AMO32})
               else if message_size = 8
               then (ucx_perf_test_check_params prms, Some {UCP_FEATURE_AMO64})
               else (UCS_ERR_INVALID_PARAM, None))
         else if command prms = UCX_PERF_CMD_TAG
         then (ucx_perf_test_check_params prms, Some {UCP_FEATURE_TAG})
         else (UCS_ERR_INVALID_PARAM, None))"











section \<open>Endpoint bring-up of the messaging API (libperf.c)\<close>

text \<open>
  \<^verbatim>\<open>ucp_perf_test_setup_endpoints\<close> (lines 875-996) calls the worker, the allocator and, for
  each peer, the endpoint layer. What these calls return is given to the model: the
  statuses of \<^verbatim>\<open>ucp_worker_get_address\<close> and \<^verbatim>\<open>ucp_rkey_pack\<close>, whether \<^verbatim>\<open>calloc\<close> of the peer
  table and \<^verbatim>\<open>malloc\<close> of the receive buffer succeed, and for peer \<open>i\<close> the status of
  \<^verbatim>\<open>ucp_ep_create\<close>, the \<^verbatim>\<open>rkey_size\<close> of the record received from it and the status of
  \<^verbatim>\<open>ucp_ep_rkey_unpack\<close>.
\<close>

record peer_outcome =
  ep_create_status :: ucs_status_t
  remote_rkey_size :: size_t
  rkey_unpack_status :: ucs_status_t

record setup_outcomes =
  worker_get_address_status :: ucs_status_t
  rkey_pack_status :: ucs_status_t
  peers_allocated :: bool
  buffer_allocated :: bool
  peer_outcome_of :: "nat \<Rightarrow> peer_outcome"

text \<open>
  The loop over the peers (lines 944-979) is left in one of three ways: it runs to its
  end, it jumps to the label \<open>err_free_buffer\<close>, or, when \<open>VERBOSE\<close> is set and the
  remote-key unpack fails, it ends the process with \<^verbatim>\<open>ucs_fatal\<close> (line 972).
\<close>

datatype peers_loop_exit =
    Loop_done
  | Goto_err_free_buffer ucs_status_t
  | Loop_fatal ucs_status_t

function setup_peers_loop ::
    "bool \<Rightarrow> (nat \<Rightarrow> peer_outcome) \<Rightarrow> nat \<Rightarrow> nat \<Rightarrow> nat \<Rightarrow> peers_loop_exit" where
  "setup_peers_loop verbose outcome group_size group_index i =
     (if i < group_size
      then (if i = group_index
            then setup_peers_loop verbose outcome group_size group_index (i + 1)
            else if ep_create_status (outcome i) \<noteq> UCS_OK
            then Goto_err_free_buffer (ep_create_status (outcome i))
            else if remote_rkey_size (outcome i) > 0
            then (if rkey_unpack_status (outcome i) \<noteq> UCS_OK
                  then (if verbose then Loop_fatal (rkey_unpack_status (outcome i))
                        else Goto_err_free_buffer (rkey_unpack_status (outcome i)))
                  else setup_peers_loop verbose outcome group_size group_index (i + 1))
            else setup_peers_loop verbose outcome group_size group_index (i + 1))
      else Loop_done)"
  by pat_completeness auto
termination
  by (relation "measure (\<lambda>(v, out, group_size, group_index, i). group_size - i)") auto

declare setup_peers_loop.simps [simp del]

text \<open>
  The calls the function makes on the receive buffer, the endpoints and the status
  exchange, in order. \<open>Exchange_status s r\<close> is a call of
  \<^verbatim>\<open>ucp_perf_test_exchange_status\<close> with the local status \<open>s\<close> that returns \<open>r\<close>.
\<close>

datatype setup_action = Free_buffer | Destroy_eps | Exchange_status ucs_status_t ucs_status_t

text \<open>
  \<^verbatim>\<open>ucp_perf_test_setup_endpoints\<close>. \<open>others\<close> holds the statuses that the peers of the group
  post in the status exchange, \<open>group_index\<close> is the caller's index and the group size is
  the number of slots. The result is \<open>Inl\<close> when the process is ended, and otherwise the
  returned status together with the calls made. The labels \<open>err\<close>, \<open>err_destroy_eps\<close> and
  \<open>err_free_buffer\<close> (lines 989-995) fall through into one another; at \<open>err\<close> the result of
  the exchange is discarded and the local status is returned. When \<^verbatim>\<open>calloc\<close> fails
  (line 933) the jump to \<open>err\<close> is taken with \<open>status\<close> as the last call left it.
\<close>

definition ucp_perf_test_setup_endpoints ::
    "'d ucx_perf_context_t \<Rightarrow> ucp_feature set \<Rightarrow> setup_outcomes \<Rightarrow> ucs_status_t list \<Rightarrow> nat \<Rightarrow>
     ucs_fatal + (ucs_status_t \<times> setup_action list)" where
  "ucp_perf_test_setup_endpoints perf feats out others group_index =
     (let group_size = length others;
          verbose = (UCX_PERF_TEST_FLAG_VERBOSE \<in> flags (params perf));
          exchange = ucp_perf_test_exchange_status others group_index;
          err = (\<lambda>status calls. Inr (status, calls @ [Exchange_status status (exchange status)]));
          err_destroy_eps = (\<lambda>status calls. err status (calls @ [Destroy_eps]));
          err_free_buffer = (\<lambda>status calls. err_destroy_eps status (calls @ [Free_buffer]));
          rkey_needed = (feats \<inter> {UCP_FEATURE_RMA, UCP_FEATURE_AMO32, UCP_FEATURE_AMO64} \<noteq> {});
          status = worker_get_address_status out
      in if status \<noteq> UCS_OK then err status []
         else
           (let status = (if rkey_needed then rkey_pack_status out else status)
            in if rkey_needed \<and> status \<noteq> UCS_OK then err status []
               else if \<not> peers_allocated out then err status []
               else if \<not> buffer_allocated out then err_destroy_eps UCS_ERR_NO_MEMORY []
               else
                 (case setup_peers_loop verbose (peer_outcome_of out) group_size group_index 0 of
                    Loop_fatal status \<Rightarrow> Inl (Fatal_rkey_unpack_failed status)
                  | Goto_err_free_buffer status \<Rightarrow> err_free_buffer status []
                  | Loop_done \<Rightarrow>
                      (let status = exchange UCS_OK
                       in Inr (status, [Free_buffer, Exchange_status UCS_OK status] @
                                       (if status \<noteq> UCS_OK then [Destroy_eps] else []))))))"



section \<open>Latency statistics\<close>

subsection \<open>Median by quickselect\<close>

text \<open>
  \<^verbatim>\<open>__find_median_quick_select\<close> (\<^verbatim>\<open>libperf.c\<close>, lines 39-89). The indices \<open>low\<close>, \<open>high\<close>,
  \<open>median\<close>, \<open>middle\<close>, \<open>ll\<close> and \<open>hh\<close> are C \<^verbatim>\<open>int\<close>s. Division of \<^verbatim>\<open>int\<close>s truncates
  towards zero.
\<close>

definition c_div :: "int \<Rightarrow> int \<Rightarrow> int" where
  "c_div a b = sgn a * sgn b * (\<bar>a\<bar> div \<bar>b\<bar>)"

text \<open>
  The sums \<^verbatim>\<open>low + high\<close> are the only arithmetic of the routine that is not confined by
  the array bounds; a sum outside the range of \<^verbatim>\<open>int\<close> is undefined behaviour and is the
  value \<open>None\<close>.
\<close>

definition INT_MAX :: int where
  "INT_MAX = 2147483647"

definition int_add :: "int \<Rightarrow> int \<Rightarrow> int option" where
  "int_add a b = (if - INT_MAX - 1 \<le> a + b \<and> a + b \<le> INT_MAX then Some (a + b) else None)"

text \<open>
  The array is a list; an access outside of it is undefined behaviour and makes the
  routine fail with \<open>None\<close>. \<open>ELEM_SWAP arr a b\<close> is the macro applied to \<^verbatim>\<open>arr[a]\<close> and
  \<^verbatim>\<open>arr[b]\<close>.
\<close>

definition in_bounds :: "'a list \<Rightarrow> int \<Rightarrow> bool" where
  "in_bounds arr i \<longleftrightarrow> 0 \<le> i \<and> i < int (length arr)"

definition el :: "'a list \<Rightarrow> int \<Rightarrow> 'a" where
  "el arr i = arr ! nat i"

definition ELEM_SWAP :: "'a list \<Rightarrow> int \<Rightarrow> int \<Rightarrow> 'a list option" where
  "ELEM_SWAP arr a b =
     (if in_bounds arr a \<and> in_bounds arr b
      then Some (arr[nat a := el arr b, nat b := el arr a])
      else None)"

text \<open>The statement \<^verbatim>\<open>if (arr[a] > arr[b]) ELEM_SWAP(arr[a], arr[b])\<close>.\<close>

definition swap_if_greater :: "ucs_time_t list \<Rightarrow> int \<Rightarrow> int \<Rightarrow> ucs_time_t list option" where
  "swap_if_greater arr a b =
     (if in_bounds arr a \<and> in_bounds arr b
      then (if el arr a > el arr b then ELEM_SWAP arr a b else Some arr)
      else None)"

text \<open>
  The two scans of the inner loop: \<^verbatim>\<open>do ll++; while (arr[low] > arr[ll])\<close> and
  \<^verbatim>\<open>do hh--; while (arr[hh] > arr[low])\<close>. Each returns the index at which it stops.
\<close>

function scan_up :: "ucs_time_t list \<Rightarrow> int \<Rightarrow> int \<Rightarrow> int option" where
  "scan_up arr low ll =
     (let ll = ll + 1
      in if in_bounds arr low \<and> in_bounds arr ll
         then (if el arr low > el arr ll then scan_up arr low ll else Some ll)
         else None)"
  by pat_completeness auto
termination
  by (relation "measure (\<lambda>(arr, low, ll). nat (int (length arr) - ll))")
     (auto simp: in_bounds_def)

function scan_down :: "ucs_time_t list \<Rightarrow> int \<Rightarrow> int \<Rightarrow> int option" where
  "scan_down arr low hh =
     (let hh = hh - 1
      in if in_bounds arr low \<and> in_bounds arr hh
         then (if el arr hh > el arr low then scan_down arr low hh else Some hh)
         else None)"
  by pat_completeness auto
termination
  by (relation "measure (\<lambda>(arr, low, hh). nat hh)") (auto simp: in_bounds_def)

declare scan_up.simps [simp del] scan_down.simps [simp del]

text \<open>
  The inner \<^verbatim>\<open>for (;;)\<close> (lines 70-78), which leaves when the scans have crossed, and the
  outer one (lines 48-88), which returns \<^verbatim>\<open>arr[median]\<close> once the active partition has at
  most two elements. Both return the array as they leave it.
\<close>

partial_function (option) partition_loop ::
    "ucs_time_t list \<Rightarrow> int \<Rightarrow> int \<Rightarrow> int \<Rightarrow> (ucs_time_t list \<times> int \<times> int) option" where
  "partition_loop arr low ll hh =
     do {
       ll \<leftarrow> scan_up arr low ll;
       hh \<leftarrow> scan_down arr low hh;
       if hh < ll then Some (arr, ll, hh)
       else do {
         arr \<leftarrow> ELEM_SWAP arr ll hh;
         partition_loop arr low ll hh
       }
     }"

partial_function (option) quick_select_loop ::
    "ucs_time_t list \<Rightarrow> int \<Rightarrow> int \<Rightarrow> int \<Rightarrow> (ucs_time_t \<times> ucs_time_t list) option" where
  "quick_select_loop arr low high median =
     (if high \<le> low
      then (if in_bounds arr median then Some (el arr median, arr) else None)
      else if high = low + 1
      then do {
        arr \<leftarrow> swap_if_greater arr low high;
        if in_bounds arr median then Some (el arr median, arr) else None
      }
      else do {
        s \<leftarrow> int_add low high;
        let middle = c_div s 2;
        arr \<leftarrow> swap_if_greater arr middle high;
        arr \<leftarrow> swap_if_greater arr low high;
        arr \<leftarrow> swap_if_greater arr middle low;
        arr \<leftarrow> ELEM_SWAP arr middle (low + 1);
        (arr, ll, hh) \<leftarrow> partition_loop arr low (low + 1) high;
        arr \<leftarrow> ELEM_SWAP arr low hh;
        quick_select_loop arr (if hh \<le> median then ll else low)
          (if hh \<ge> median then hh - 1 else high) median
      })"

declare partition_loop.simps [code] quick_select_loop.simps [code]

definition find_median_quick_select ::
    "ucs_time_t list \<Rightarrow> int \<Rightarrow> (ucs_time_t \<times> ucs_time_t list) option" where
  "find_median_quick_select arr n =
     do {
       let low = 0;
       let high = n - 1;
       s \<leftarrow> int_add low high;
       let median = c_div s 2;
       quick_select_loop arr low high median
     }"

subsection \<open>Predicates of the correctness proof\<close>

text \<open>
  \<open>perm_within arr arr' lo hi\<close>: \<open>arr'\<close> rearranges \<open>arr\<close> inside the positions \<open>lo..hi\<close> and
  agrees with it elsewhere. \<open>cut arr c\<close>: no element before position \<open>c\<close> is greater than
  an element at or after it. \<open>settled arr m\<close>: position \<open>m\<close> holds an element that is not
  smaller than any element before it and not greater than any element after it.
\<close>

definition perm_within :: "'a list \<Rightarrow> 'a list \<Rightarrow> int \<Rightarrow> int \<Rightarrow> bool" where
  "perm_within arr arr' lo hi \<longleftrightarrow>
     length arr' = length arr \<and> mset arr' = mset arr \<and>
     (\<forall>k. 0 \<le> k \<and> k < int (length arr) \<and> (k < lo \<or> hi < k) \<longrightarrow> el arr' k = el arr k) \<and>
     (\<forall>k. lo \<le> k \<and> k \<le> hi \<longrightarrow> (\<exists>j. lo \<le> j \<and> j \<le> hi \<and> el arr' k = el arr j))"

definition cut :: "ucs_time_t list \<Rightarrow> int \<Rightarrow> bool" where
  "cut arr c \<longleftrightarrow>
     (\<forall>i j. 0 \<le> i \<and> i < c \<and> c \<le> j \<and> j < int (length arr) \<longrightarrow> el arr i \<le> el arr j)"

definition settled :: "ucs_time_t list \<Rightarrow> int \<Rightarrow> bool" where
  "settled arr m \<longleftrightarrow>
     (\<forall>i. 0 \<le> i \<and> i < m \<longrightarrow> el arr i \<le> el arr m) \<and>
     (\<forall>j. m < j \<and> j < int (length arr) \<longrightarrow> el arr m \<le> el arr j)"

subsection \<open>The reported result\<close>

text \<open>
  \<^verbatim>\<open>ucx_perf_result_t\<close>, whose declaration is in a header that is not part of the sources
  at hand: the fields are those that \<^verbatim>\<open>ucx_perf_calc_result\<close> assigns. \<open>elapsed_time\<close> holds
  the difference of clock values that is assigned to it.
\<close>

record 'd perf_stat =
  typical :: 'd
  moment_average :: 'd
  total_average :: 'd

record 'd ucx_perf_result_t =
  result_iters :: ucx_perf_counter_t
  result_bytes :: ucx_perf_counter_t
  elapsed_time :: ucs_time_t
  latency :: "'d perf_stat"
  bandwidth :: "'d perf_stat"
  msgrate :: "'d perf_stat"

text \<open>
  \<^verbatim>\<open>ucx_perf_calc_result\<close> (lines 199-260). An integer operand of a division or product
  with a \<^verbatim>\<open>double\<close> is converted by \<open>d_of_u64\<close>; differences of counters and of clock values
  are taken in 64 bits before the conversion. The median is taken over the whole array
  \<^verbatim>\<open>perf->timing_queue\<close> of \<^verbatim>\<open>TIMING_QUEUE_SIZE\<close> slots, which the selection reorders.
\<close>

definition ucx_perf_calc_result ::
    "'d double_ops \<Rightarrow> nat \<Rightarrow> 'd ucx_perf_context_t \<Rightarrow>
     ('d ucx_perf_context_t \<times> 'd ucx_perf_result_t) option" where
  "ucx_perf_calc_result ops TIMING_QUEUE_SIZE perf =
     (let sec_value = d_of_u64 ops (ucs_time_from_sec ops (d_one ops));
          latency_factor =
            (if test_type (params perf) = UCX_PERF_TEST_TYPE_PINGPONG
             then d_two ops else d_one ops)
      in do {
        (med, tq) \<leftarrow> find_median_quick_select (timing_queue perf) (int TIMING_QUEUE_SIZE);
        Some (perf \<lparr> timing_queue := tq \<rparr>,
          \<lparr> result_iters = iters (current perf),
            result_bytes = bytes (current perf),
            elapsed_time = time (current perf) - start_time perf,
            latency = \<lparr>
              typical = d_div ops (d_div ops (d_of_u64 ops med) sec_value) latency_factor,
              moment_average =
                d_div ops
                  (d_div ops
                    (d_div ops (d_of_u64 ops (time (current perf) - time (prev perf)))
                       (d_of_u64 ops (iters (current perf) - iters (prev perf))))
                    sec_value)
                  latency_factor,
              total_average =
                d_div ops
                  (d_div ops
                    (d_div ops (d_of_u64 ops (time (current perf) - start_time perf))
                       (d_of_u64 ops (iters (current perf))))
                    sec_value)
                  latency_factor \<rparr>,
            bandwidth = \<lparr>
              typical = d_zero ops,
              moment_average =
                d_div ops
                  (d_mul ops (d_of_u64 ops (bytes (current perf) - bytes (prev perf))) sec_value)
                  (d_of_u64 ops (time (current perf) - time (prev perf))),
              total_average =
                d_div ops (d_mul ops (d_of_u64 ops (bytes (current perf))) sec_value)
                  (d_of_u64 ops (time (current perf) - start_time perf)) \<rparr>,
            msgrate = \<lparr>
              typical = d_zero ops,
              moment_average =
                d_div ops
                  (d_mul ops (d_of_u64 ops (msgs (current perf) - msgs (prev perf))) sec_value)
                  (d_of_u64 ops (time (current perf) - time (prev perf))),
              total_average =
                d_div ops (d_mul ops (d_of_u64 ops (msgs (current perf))) sec_value)
                  (d_of_u64 ops (time (current perf) - start_time perf)) \<rparr> \<rparr>)
      })"

section \<open>A concrete instance\<close>

text \<open>
  An instance on which the functions can be run: integers stand for the doubles, a
  second has 1000 clock ticks, and the timing ring has four slots.
\<close>

definition example_ops :: "int double_ops" where
  "example_ops = \<lparr> d_of_u64 = uint, d_div = (div), d_mul = (*), d_zero = 0, d_one = 1,
                   d_two = 2, d_neg_one = - 1, d_eq = (=), d_gt = (>),
                   ucs_time_from_sec = (\<lambda>s. of_int (s * 1000)) \<rparr>"

definition example_params :: "int ucx_perf_params_t" where
  "example_params = \<lparr> api = UCX_PERF_API_UCP, command = UCX_PERF_CMD_ADD,
       test_type = UCX_PERF_TEST_TYPE_PINGPONG, thread_mode = UCS_THREAD_MODE_SINGLE,
       thread_count = 1, msg_size_list = [8], iov_stride = 0, am_hdr_size = 0,
       max_outstanding = 1, warmup_iter = 50, max_iter = 200, max_time = 2,
       report_interval = 1, uct_data_layout = UCT_PERF_DATA_LAYOUT_SHORT,
       uct_fc_window = 0, flags = {} \<rparr>"

definition example_perf :: "int ucx_perf_context_t" where
  "example_perf = \<lparr> params = example_params, start_time = 7, prev_time = 7, end_time = 9,
       perf_max_iter = 3, perf_report_interval = 4,
       current = \<lparr>time = 900, msgs = 5, bytes = 40, iters = 5\<rparr>,
       prev = \<lparr>time = 800, msgs = 4, bytes = 32, iters = 4\<rparr>,
       timing_queue_head = 2, offset = 0, timing_queue = [30000, 10000, 40000, 20000] \<rparr>"


text \<open>A setup and a run that succeed and leave the context as it is.\<close>

definition example_setup ::
    "int ucx_perf_context_t \<Rightarrow> int ucx_perf_params_t \<Rightarrow> ucs_status_t \<times> int ucx_perf_context_t"
    where
  "example_setup perf prms = (UCS_OK, perf)"

definition example_run :: "int ucx_perf_context_t \<Rightarrow> ucs_status_t \<times> int ucx_perf_context_t"
    where
  "example_run perf = (UCS_OK, perf)"


definition example_outcomes_unpack_fails :: setup_outcomes where
  "example_outcomes_unpack_fails = \<lparr> worker_get_address_status = UCS_OK,
       rkey_pack_status = UCS_OK, peers_allocated = True, buffer_allocated = True,
       peer_outcome_of = (\<lambda>i. \<lparr> ep_create_status = UCS_OK, remote_rkey_size = 16,
                                 rkey_unpack_status = UCS_ERR_IO_ERROR \<rparr>) \<rparr>"


section \<open>Endpoint-configuration cache (ucp\_worker.c)\<close>

text \<open>
  The part of the worker that \<^verbatim>\<open>ucp_worker_get_ep_config\<close> works on: the array
  \<^verbatim>\<open>ep_config\<close> (of capacity \<^verbatim>\<open>ep_config_max\<close>; an entry is represented by its key, the
  derived parameters that \<^verbatim>\<open>ucp_ep_config_init\<close> adds play no part in the lookup), the
  number of entries in use and the capacity. \<open>'k\<close> is the type of
  \<^verbatim>\<open>ucp_ep_config_key_t\<close>.
\<close>

record 'k ucp_worker_ep_cache =
  ep_config :: "'k list"
  ep_config_count :: nat
  ep_config_max :: nat

definition UINT8_MAX :: nat where "UINT8_MAX = 255"

text \<open>
  \<^verbatim>\<open>ucp_worker_create\<close>, lines 470-475 and 500-501: the capacity is
  \<open>min((num_tls + 1) * (num_tls + 1) * num_tls, UINT8_MAX)\<close>, the array is allocated zeroed
  (\<open>zero_key\<close> is the all-zero key) and no entry is in use; \<open>ntls\<close> is the context's
  \<^verbatim>\<open>num_tls\<close>.
\<close>

definition ucp_worker_create_ep_cache :: "nat \<Rightarrow> 'k \<Rightarrow> 'k ucp_worker_ep_cache" where
  "ucp_worker_create_ep_cache ntls zero_key =
     (let config_count = ucs_min ((ntls + 1) * (ntls + 1) * ntls) UINT8_MAX
      in \<lparr> ep_config = replicate config_count zero_key,
           ep_config_count = 0,
           ep_config_max = config_count \<rparr>)"

text \<open>
  Modelled from the spec: \<^verbatim>\<open>ucp_ep_config_is_equal\<close> is defined outside the sources at hand.
  Keys are equal by structural equality of all selection fields.
\<close>

definition ucp_ep_config_is_equal :: "'k \<Rightarrow> 'k \<Rightarrow> bool" where
  "ucp_ep_config_is_equal key1 key2 = (key1 = key2)"

text \<open>The search loop of \<^verbatim>\<open>ucp_worker_get_ep_config\<close> (lines 435-439).\<close>

function ep_config_search :: "'k list \<Rightarrow> nat \<Rightarrow> 'k \<Rightarrow> nat \<Rightarrow> nat option" where
  "ep_config_search cfgs cnt key config_idx =
     (if config_idx < cnt
      then (if ucp_ep_config_is_equal (cfgs ! config_idx) key then Some config_idx
            else ep_config_search cfgs cnt key (config_idx + 1))
      else None)"
  by pat_completeness auto
termination
  by (relation "measure (\<lambda>(cfgs, cnt, key, i). cnt - i)") auto

declare ep_config_search.simps [simp del]

text \<open>
  \<^verbatim>\<open>ucp_worker_get_ep_config\<close>: the index found, or a fatal error when the array is full,
  or the new entry at index \<^verbatim>\<open>ep_config_count\<close>, which is then incremented.
\<close>

definition ucp_worker_get_ep_config ::
    "'k ucp_worker_ep_cache \<Rightarrow> 'k \<Rightarrow> ucs_fatal + (nat \<times> 'k ucp_worker_ep_cache)" where
  "ucp_worker_get_ep_config worker key =
     (case ep_config_search (ep_config worker) (ep_config_count worker) key 0 of
        Some config_idx \<Rightarrow> Inr (config_idx, worker)
      | None \<Rightarrow>
          if ep_config_count worker \<ge> ep_config_max worker
          then Inl Fatal_too_many_ep_configurations
          else Inr (ep_config_count worker,
                    worker\<lparr> ep_config := (ep_config worker)[ep_config_count worker := key],
                            ep_config_count := ep_config_count worker + 1 \<rparr>))"

text \<open>
  Well-formedness of the cache: the count does not exceed the capacity, the capacity does
  not exceed \<open>UINT8_MAX\<close>, and the array has the capacity as its length.
\<close>

definition ep_cache_ok :: "'k ucp_worker_ep_cache \<Rightarrow> bool" where
  "ep_cache_ok worker \<longleftrightarrow>
     ep_config_count worker \<le> ep_config_max worker \<and>
     ep_config_max worker \<le> 255 \<and>
     length (ep_config worker) = ep_config_max worker"

text \<open>
  Two contexts with the CPU policy and 64-bit atomics among the features: one interface
  without host-based atomics; and two interfaces of which the second has them.
\<close>

definition example_context :: ucp_context_t where
  "example_context = \<lparr> num_tls = 1,
       tl_rscs = [\<lparr>md_index = 0, dev_name = ''eth0''\<rparr>],
       tl_mds = [{UCT_MD_FLAG_REG}],
       features = {UCP_FEATURE_AMO64},
       atomic_mode = UCP_ATOMIC_MODE_CPU,
       uct_atomic_iface_flags = {UCT_IFACE_FLAG_ATOMIC_ADD64, UCT_IFACE_FLAG_ATOMIC_FADD64,
         UCT_IFACE_FLAG_ATOMIC_SWAP64, UCT_IFACE_FLAG_ATOMIC_CSWAP64} \<rparr>"

definition example_iface_attrs :: "worker_iface_attr list" where
  "example_iface_attrs =
     [\<lparr>cap_flags = {UCT_IFACE_FLAG_AM_SHORT, UCT_IFACE_FLAG_AM_BCOPY}, priority = 0\<rparr>]"

definition example_context2 :: ucp_context_t where
  "example_context2 = \<lparr> num_tls = 2,
       tl_rscs = [\<lparr>md_index = 0, dev_name = ''eth0''\<rparr>, \<lparr>md_index = 1, dev_name = ''memory''\<rparr>],
       tl_mds = [{UCT_MD_FLAG_REG}, {UCT_MD_FLAG_ALLOC}],
       features = {UCP_FEATURE_AMO64},
       atomic_mode = UCP_ATOMIC_MODE_CPU,
       uct_atomic_iface_flags = {UCT_IFACE_FLAG_ATOMIC_ADD64, UCT_IFACE_FLAG_ATOMIC_FADD64,
         UCT_IFACE_FLAG_ATOMIC_SWAP64, UCT_IFACE_FLAG_ATOMIC_CSWAP64} \<rparr>"

definition example_iface_attrs2 :: "worker_iface_attr list" where
  "example_iface_attrs2 =
     [\<lparr>cap_flags = {UCT_IFACE_FLAG_AM_SHORT, UCT_IFACE_FLAG_AM_BCOPY}, priority = 0\<rparr>,
      \<lparr>cap_flags = {UCT_IFACE_FLAG_AM_SHORT, UCT_IFACE_FLAG_ATOMIC_ADD64,
         UCT_IFACE_FLAG_ATOMIC_CPU}, priority = 0\<rparr>]"


section \<open>Theorems\<close>

subsection \<open>Status loops\<close>

lemma thread_status_loop_all_ok:
  "\<forall>j. ti \<le> j \<and> j < nti \<longrightarrow> statuses ! j = UCS_OK \<Longrightarrow>
   thread_status_loop statuses nti ti status = status"
proof (induction statuses nti ti status rule: thread_status_loop.induct)
  case (1 statuses nti ti status)
  show ?case
  proof (cases "ti < nti")
    case True
    then have ok: "statuses ! ti = UCS_OK" using "1.prems" by simp
    have "thread_status_loop statuses nti (ti + 1) status = status"
      using "1.IH" [OF True] "1.prems" ok by simp
    then show ?thesis using True ok by (subst thread_status_loop.simps) simp
  next
    case False
    then show ?thesis by (subst thread_status_loop.simps) simp
  qed
qed

lemma thread_status_loop_last:
  "ti \<le> i \<Longrightarrow> i < nti \<Longrightarrow> statuses ! i \<noteq> UCS_OK \<Longrightarrow>
   \<forall>j. i < j \<and> j < nti \<longrightarrow> statuses ! j = UCS_OK \<Longrightarrow>
   thread_status_loop statuses nti ti status = statuses ! i"
proof (induction statuses nti ti status rule: thread_status_loop.induct)
  case (1 statuses nti ti status)
  from "1.prems" have lt: "ti < nti" by simp
  show ?case
  proof (cases "ti = i")
    case True
    have "thread_status_loop statuses nti (i + 1) (statuses ! i) = statuses ! i"
      by (rule thread_status_loop_all_ok) (use "1.prems" in auto)
    then show ?thesis
      using True lt "1.prems"(3) by (subst thread_status_loop.simps) auto
  next
    case False
    then have "ti + 1 \<le> i" using "1.prems" by simp
    then have "thread_status_loop statuses nti (ti + 1)
        (if UCS_OK \<noteq> statuses ! ti then statuses ! ti else status) = statuses ! i"
      using "1.IH" [OF lt] "1.prems" by blast
    then show ?thesis using lt by (subst thread_status_loop.simps) simp
  qed
qed



lemma greatest_failing_index:
  "\<exists>i<n::nat. P i \<Longrightarrow> \<exists>i<n. P i \<and> (\<forall>j. i < j \<and> j < n \<longrightarrow> \<not> P j)"
proof (induction n)
  case 0
  then show ?case by simp
next
  case (Suc n)
  show ?case
  proof (cases "P n")
    case True
    then show ?thesis by (intro exI [of _ n]) auto
  next
    case False
    with Suc.prems have "\<exists>i<n. P i" by (metis less_Suc_eq)
    from Suc.IH [OF this] obtain i where "i < n" "P i" "\<forall>j. i < j \<and> j < n \<longrightarrow> \<not> P j"
      by blast
    with False show ?thesis by (intro exI [of _ i]) (auto simp: less_Suc_eq)
  qed
qed


subsection \<open>Reset of the timing ring\<close>

lemma length_reset_timing_queue [simp]:
  "length (reset_timing_queue tq n i) = length tq"
proof (induction tq n i rule: reset_timing_queue.induct)
  case (1 tq n i)
  show ?case
    using "1.IH" by (subst reset_timing_queue.simps) simp
qed

lemma reset_timing_queue_nth:
  "n \<le> length tq \<Longrightarrow> k < n \<Longrightarrow>
   reset_timing_queue tq n i ! k = (if i \<le> k then 0 else tq ! k)"
proof (induction tq n i rule: reset_timing_queue.induct)
  case (1 tq n i)
  show ?case
  proof (cases "i < n")
    case True
    have "reset_timing_queue (tq[i := 0]) n (i + 1) ! k =
        (if i + 1 \<le> k then 0 else tq[i := 0] ! k)"
      using "1.IH" [OF True] "1.prems" by simp
    then show ?thesis
      using True "1.prems" by (subst reset_timing_queue.simps) (auto simp: nth_list_update)
  next
    case False
    then show ?thesis using "1.prems" by (subst reset_timing_queue.simps) simp
  qed
qed

subsection \<open>Endpoint-configuration cache\<close>

lemma ep_config_search_step:
  "idx < cnt \<Longrightarrow> cfgs ! idx \<noteq> key \<Longrightarrow>
   ep_config_search cfgs cnt key idx = ep_config_search cfgs cnt key (idx + 1)"
  by (subst ep_config_search.simps) (simp add: ucp_ep_config_is_equal_def)

lemma ep_config_search_hit:
  "idx < cnt \<Longrightarrow> cfgs ! idx = key \<Longrightarrow> ep_config_search cfgs cnt key idx = Some idx"
  by (subst ep_config_search.simps) (simp add: ucp_ep_config_is_equal_def)

lemma ep_config_search_end:
  "\<not> idx < cnt \<Longrightarrow> ep_config_search cfgs cnt key idx = None"
  by (subst ep_config_search.simps) simp

lemma ep_config_search_first:
  "idx \<le> i \<Longrightarrow> i < cnt \<Longrightarrow> cfgs ! i = key \<Longrightarrow>
   \<forall>j. idx \<le> j \<and> j < i \<longrightarrow> cfgs ! j \<noteq> key \<Longrightarrow>
   ep_config_search cfgs cnt key idx = Some i"
proof (induction "i - idx" arbitrary: idx)
  case 0
  then have "idx = i" by simp
  with 0 show ?case by (simp add: ep_config_search_hit)
next
  case (Suc d)
  then have lt: "idx < i" by simp
  then have ne: "cfgs ! idx \<noteq> key" using Suc.prems by simp
  have "ep_config_search cfgs cnt key (idx + 1) = Some i"
    by (rule Suc.hyps(1)) (use Suc.hyps(2) Suc.prems lt in auto)
  moreover have "idx < cnt" using lt Suc.prems by simp
  ultimately show ?case using ne by (simp add: ep_config_search_step)
qed

lemma ep_config_search_none:
  "\<forall>j. idx \<le> j \<and> j < cnt \<longrightarrow> cfgs ! j \<noteq> key \<Longrightarrow>
   ep_config_search cfgs cnt key idx = None"
proof (induction "cnt - idx" arbitrary: idx)
  case 0
  then show ?case by (simp add: ep_config_search_end)
next
  case (Suc d)
  then have lt: "idx < cnt" by simp
  then have ne: "cfgs ! idx \<noteq> key" using Suc.prems by simp
  have "ep_config_search cfgs cnt key (idx + 1) = None"
    by (rule Suc.hyps(1)) (use Suc.hyps(2) Suc.prems in auto)
  then show ?case using lt ne by (simp add: ep_config_search_step)
qed

lemma first_match_exists:
  "\<exists>j<n::nat. P j \<Longrightarrow> \<exists>i<n. P i \<and> (\<forall>j<i. \<not> P j)"
proof -
  assume "\<exists>j<n. P j"
  then obtain j where j: "j < n" "P j" by blast
  define i where "i = (LEAST j. P j)"
  have "P i" unfolding i_def using j(2) by (rule LeastI)
  moreover have "i \<le> j" unfolding i_def using j(2) by (rule Least_le)
  moreover have "\<forall>m<i. \<not> P m" unfolding i_def using not_less_Least by blast
  ultimately show ?thesis using j(1) by (intro exI [of _ i]) auto
qed

lemma ep_config_search_cases:
  "(ep_config_search cfgs cnt key 0 = None \<and> (\<forall>j<cnt. cfgs ! j \<noteq> key)) \<or>
   (\<exists>i<cnt. ep_config_search cfgs cnt key 0 = Some i \<and> cfgs ! i = key \<and>
        (\<forall>j<i. cfgs ! j \<noteq> key))"
proof (cases "\<exists>j<cnt. cfgs ! j = key")
  case True
  from first_match_exists [of cnt "\<lambda>j. cfgs ! j = key", OF True]
  obtain i where i: "i < cnt" "cfgs ! i = key" "\<forall>j<i. cfgs ! j \<noteq> key" by blast
  then have "ep_config_search cfgs cnt key 0 = Some i"
    by (intro ep_config_search_first) auto
  with i show ?thesis by blast
next
  case False
  then have "ep_config_search cfgs cnt key 0 = None"
    by (intro ep_config_search_none) auto
  with False show ?thesis by blast
qed

lemma get_ep_config_found:
  assumes "i < ep_config_count w" and "ep_config w ! i = k" and "\<forall>j<i. ep_config w ! j \<noteq> k"
  shows "ucp_worker_get_ep_config w k = Inr (i, w)"
proof -
  have "ep_config_search (ep_config w) (ep_config_count w) k 0 = Some i"
    using assms by (intro ep_config_search_first) auto
  then show ?thesis by (simp add: ucp_worker_get_ep_config_def)
qed

lemma get_ep_config_new:
  assumes "\<forall>j<ep_config_count w. ep_config w ! j \<noteq> k"
  shows "ucp_worker_get_ep_config w k =
     (if ep_config_max w \<le> ep_config_count w then Inl Fatal_too_many_ep_configurations
      else Inr (ep_config_count w,
           w\<lparr> ep_config := (ep_config w)[ep_config_count w := k],
              ep_config_count := ep_config_count w + 1 \<rparr>))"
proof -
  have "ep_config_search (ep_config w) (ep_config_count w) k 0 = None"
    using assms by (intro ep_config_search_none) auto
  then show ?thesis by (simp add: ucp_worker_get_ep_config_def)
qed

lemma get_ep_config_Inr:
  assumes ok: "ep_cache_ok w" and g: "ucp_worker_get_ep_config w k = Inr (i, w')"
  shows "i < ep_config_count w' \<and> ep_config w' ! i = k \<and>
         (\<forall>j<i. ep_config w' ! j \<noteq> k) \<and> ep_cache_ok w' \<and>
         ep_config_count w \<le> ep_config_count w' \<and>
         (\<forall>j<ep_config_count w. ep_config w' ! j = ep_config w ! j)"
proof (cases "\<exists>j<ep_config_count w. ep_config w ! j = k")
  case True
  from first_match_exists [of "ep_config_count w" "\<lambda>j. ep_config w ! j = k", OF True]
  obtain m where m: "m < ep_config_count w" "ep_config w ! m = k"
    "\<forall>j<m. ep_config w ! j \<noteq> k" by blast
  from get_ep_config_found [OF m] g have "i = m" "w' = w" by simp_all
  with m ok show ?thesis by simp
next
  case False
  then have none: "\<forall>j<ep_config_count w. ep_config w ! j \<noteq> k" by blast
  from get_ep_config_new [OF none] g
  have lt: "ep_config_count w < ep_config_max w"
    and i: "i = ep_config_count w"
    and w': "w' = w\<lparr> ep_config := (ep_config w)[ep_config_count w := k],
              ep_config_count := ep_config_count w + 1 \<rparr>"
    by (simp_all split: if_splits)
  have len: "ep_config_count w < length (ep_config w)"
    using ok lt by (simp add: ep_cache_ok_def)
  have a: "i < ep_config_count w'" by (simp add: i w')
  have b: "ep_config w' ! i = k" using len by (simp add: i w')
  have c: "\<forall>j<i. ep_config w' ! j \<noteq> k" using none by (simp add: i w')
  have d: "ep_cache_ok w'" using ok lt by (simp add: ep_cache_ok_def w')
  have e: "ep_config_count w \<le> ep_config_count w'" by (simp add: w')
  have f: "\<forall>j<ep_config_count w. ep_config w' ! j = ep_config w ! j" by (simp add: w')
  from a b c d e f show ?thesis by blast
qed

lemma ucp_worker_create_ep_cache_ok:
  "ep_cache_ok (ucp_worker_create_ep_cache ntls zero_key)"
  by (simp add: ep_cache_ok_def ucp_worker_create_ep_cache_def Let_def ucs_min_def
      UINT8_MAX_def)

subsection \<open>Atomic-resource selection\<close>

lemma bit_UCS_BIT: "bit (UCS_BIT i) j \<longleftrightarrow> j = i \<and> i < 64"
  by (auto simp: UCS_BIT_def bit_exp_iff possible_bit_word)

lemma bit_enable:
  "bit (ucp_worker_enable_atomic_tl m i) j \<longleftrightarrow> bit m j \<or> (j = i \<and> i < 64)"
  by (simp add: ucp_worker_enable_atomic_tl_def bit_or_iff bit_UCS_BIT)

lemma word64_zero_iff: "(w :: 64 word) = 0 \<longleftrightarrow> (\<forall>n. \<not> bit w n)"
proof -
  have "bit w n \<Longrightarrow> n < 64" for n
    using bit_imp_le_length [of w n] by simp
  then show ?thesis by (auto simp: bit_eq_iff [of w 0])
qed

lemma and_UCS_BIT_nonzero: "(m AND UCS_BIT i \<noteq> 0) \<longleftrightarrow> (bit m i \<and> i < 64)"
  by (simp add: word64_zero_iff bit_and_iff bit_UCS_BIT)

lemma bit_cpu_atomics_loop:
  "bit (cpu_atomics_loop c attrs i m) j \<longleftrightarrow>
     bit m j \<or> (i \<le> j \<and> j < num_tls c \<and> j < 64 \<and>
                UCT_IFACE_FLAG_ATOMIC_CPU \<in> cap_flags (attrs ! j))"
proof (induction c attrs i m rule: cpu_atomics_loop.induct)
  case (1 c attrs i m)
  show ?case
  proof (cases "i < num_tls c")
    case True
    show ?thesis
      using True "1.IH" [OF True]
      by (subst cpu_atomics_loop.simps) (auto simp: bit_enable Suc_le_eq le_less)
  next
    case False
    then show ?thesis by (subst cpu_atomics_loop.simps) auto
  qed
qed

lemma bit_device_enable_loop:
  "bit (device_enable_loop n c supp best i m) j \<longleftrightarrow>
     bit m j \<or> (i \<le> j \<and> j < num_tls c \<and> j < 64 \<and> bit supp j \<and>
                md_index (tl_rscs c ! j) = md_index best \<and>
                strncmp_eq (dev_name (tl_rscs c ! j)) (dev_name best) n)"
proof (induction n c supp best i m rule: device_enable_loop.induct)
  case (1 n c supp best i m)
  show ?case
  proof (cases "i < num_tls c")
    case True
    show ?thesis
      using True "1.IH" [OF True refl]
      by (subst device_enable_loop.simps)
         (auto simp: bit_enable and_UCS_BIT_nonzero Suc_le_eq le_less Let_def)
  next
    case False
    then show ?thesis by (subst device_enable_loop.simps) auto
  qed
qed

lemma ex_from_split:
  assumes "i < (n::nat)"
  shows "(\<exists>j. i \<le> j \<and> j < n \<and> P j) \<longleftrightarrow> P i \<or> (\<exists>j. i + 1 \<le> j \<and> j < n \<and> P j)"
    (is "?L \<longleftrightarrow> ?R")
proof
  assume ?L
  then obtain j where j: "i \<le> j" "j < n" "P j" by blast
  show ?R
  proof (cases "j = i")
    case True
    with j show ?thesis by blast
  next
    case False
    with j have "i + 1 \<le> j" by simp
    with j show ?thesis by blast
  qed
next
  assume ?R
  then show ?L
  proof
    assume "P i"
    with assms show ?L by (intro exI [of _ i]) simp
  next
    assume "\<exists>j. i + 1 \<le> j \<and> j < n \<and> P j"
    then obtain j where "i + 1 \<le> j" "j < n" "P j" by blast
    then show ?L by (intro exI [of _ j]) simp
  qed
qed

lemma device_select_loop_end:
  "\<not> i < num_tls c \<Longrightarrow> device_select_loop ops sc c attrs fl i st = st"
  by (subst device_select_loop.simps) simp

lemma device_select_loop_skip:
  "i < num_tls c \<Longrightarrow>
   UCT_MD_FLAG_REG \<notin> tl_mds c ! md_index (tl_rscs c ! i) \<or> \<not> fl \<subseteq> cap_flags (attrs ! i) \<Longrightarrow>
   device_select_loop ops sc c attrs fl i st = device_select_loop ops sc c attrs fl (i + 1) st"
  by (subst device_select_loop.simps) (auto simp: Let_def ucs_test_all_flags_def)

lemma device_select_loop_take:
  "i < num_tls c \<Longrightarrow>
   UCT_MD_FLAG_REG \<in> tl_mds c ! md_index (tl_rscs c ! i) \<Longrightarrow> fl \<subseteq> cap_flags (attrs ! i) \<Longrightarrow>
   device_select_loop ops sc c attrs fl i st =
     device_select_loop ops sc c attrs fl (i + 1)
       (if d_gt ops (sc i) (best_score st) \<or>
           (d_eq ops (sc i) (best_score st) \<and> priority (attrs ! i) > best_priority st)
        then st\<lparr> supp_tls := supp_tls st OR UCS_BIT i, best_rsc := Some (tl_rscs c ! i),
                 best_score := sc i, best_priority := priority (attrs ! i) \<rparr>
        else st\<lparr> supp_tls := supp_tls st OR UCS_BIT i \<rparr>)"
  by (subst device_select_loop.simps) (auto simp: Let_def ucs_test_all_flags_def)

lemma device_select_loop_supp:
  "bit (supp_tls (device_select_loop ops sc c attrs fl i st)) j \<longleftrightarrow>
     bit (supp_tls st) j \<or>
     (i \<le> j \<and> j < num_tls c \<and> j < 64 \<and>
      UCT_MD_FLAG_REG \<in> tl_mds c ! md_index (tl_rscs c ! j) \<and> fl \<subseteq> cap_flags (attrs ! j))"
proof (induction "num_tls c - i" arbitrary: i st)
  case 0
  then show ?case by (auto simp: device_select_loop_end)
next
  case (Suc d)
  then have lt: "i < num_tls c" and d: "d = num_tls c - (i + 1)" by simp_all
  note ih = Suc.hyps(1) [OF d]
  have ij: "i \<le> j \<longleftrightarrow> j = i \<or> i + 1 \<le> j" by arith
  show ?case
  proof (cases "UCT_MD_FLAG_REG \<in> tl_mds c ! md_index (tl_rscs c ! i) \<and>
      fl \<subseteq> cap_flags (attrs ! i)")
    case True
    then have q1: "UCT_MD_FLAG_REG \<in> tl_mds c ! md_index (tl_rscs c ! i)"
      and q2: "fl \<subseteq> cap_flags (attrs ! i)" by simp_all
    let ?st' = "(if d_gt ops (sc i) (best_score st) \<or>
           (d_eq ops (sc i) (best_score st) \<and> priority (attrs ! i) > best_priority st)
        then st\<lparr> supp_tls := supp_tls st OR UCS_BIT i, best_rsc := Some (tl_rscs c ! i),
                 best_score := sc i, best_priority := priority (attrs ! i) \<rparr>
        else st\<lparr> supp_tls := supp_tls st OR UCS_BIT i \<rparr>)"
    have s': "bit (supp_tls ?st') j \<longleftrightarrow> bit (supp_tls st) j \<or> (j = i \<and> i < 64)"
      by (simp add: bit_or_iff bit_UCS_BIT)
    have "bit (supp_tls (device_select_loop ops sc c attrs fl i st)) j \<longleftrightarrow>
        (bit (supp_tls st) j \<or> (j = i \<and> i < 64)) \<or>
        (i + 1 \<le> j \<and> j < num_tls c \<and> j < 64 \<and>
      UCT_MD_FLAG_REG \<in> tl_mds c ! md_index (tl_rscs c ! j) \<and> fl \<subseteq> cap_flags (attrs ! j))"
      unfolding device_select_loop_take [OF lt q1 q2] ih s' ..
    then show ?thesis unfolding ij using q1 q2 lt by blast
  next
    case False
    then have sk: "device_select_loop ops sc c attrs fl i st
        = device_select_loop ops sc c attrs fl (i + 1) st"
      using lt by (intro device_select_loop_skip) auto
    show ?thesis unfolding sk ih ij using False by blast
  qed
qed

lemma device_select_loop_best_origin:
  "best_rsc (device_select_loop ops sc c attrs fl i st) = Some b \<Longrightarrow>
   best_rsc st = Some b \<or>
   (\<exists>j. i \<le> j \<and> j < num_tls c \<and> b = tl_rscs c ! j \<and>
        UCT_MD_FLAG_REG \<in> tl_mds c ! md_index (tl_rscs c ! j) \<and> fl \<subseteq> cap_flags (attrs ! j))"
proof (induction "num_tls c - i" arbitrary: i st)
  case 0
  then show ?case by (simp add: device_select_loop_end)
next
  case (Suc d)
  then have lt: "i < num_tls c" and d: "d = num_tls c - (i + 1)" by simp_all
  note ih = Suc.hyps(1) [OF d]
  show ?case
  proof (cases "UCT_MD_FLAG_REG \<in> tl_mds c ! md_index (tl_rscs c ! i) \<and>
      fl \<subseteq> cap_flags (attrs ! i)")
    case True
    then have q1: "UCT_MD_FLAG_REG \<in> tl_mds c ! md_index (tl_rscs c ! i)"
      and q2: "fl \<subseteq> cap_flags (attrs ! i)" by simp_all
    let ?st' = "(if d_gt ops (sc i) (best_score st) \<or>
           (d_eq ops (sc i) (best_score st) \<and> priority (attrs ! i) > best_priority st)
        then st\<lparr> supp_tls := supp_tls st OR UCS_BIT i, best_rsc := Some (tl_rscs c ! i),
                 best_score := sc i, best_priority := priority (attrs ! i) \<rparr>
        else st\<lparr> supp_tls := supp_tls st OR UCS_BIT i \<rparr>)"
    have "best_rsc (device_select_loop ops sc c attrs fl (i + 1) ?st') = Some b"
      using Suc.prems unfolding device_select_loop_take [OF lt q1 q2] .
    from ih [OF this] consider "best_rsc ?st' = Some b"
      | "\<exists>j. i + 1 \<le> j \<and> j < num_tls c \<and> b = tl_rscs c ! j \<and>
        UCT_MD_FLAG_REG \<in> tl_mds c ! md_index (tl_rscs c ! j) \<and> fl \<subseteq> cap_flags (attrs ! j)"
      by blast
    then show ?thesis
    proof cases
      case 1
      then have "best_rsc st = Some b \<or> b = tl_rscs c ! i"
        by (simp split: if_splits)
      then show ?thesis
      proof
        assume "best_rsc st = Some b"
        then show ?thesis by (rule disjI1)
      next
        assume "b = tl_rscs c ! i"
        with q1 q2 lt show ?thesis by (intro disjI2 exI [of _ i]) simp
      qed
    next
      case 2
      then obtain j where "i + 1 \<le> j" "j < num_tls c" "b = tl_rscs c ! j"
        "UCT_MD_FLAG_REG \<in> tl_mds c ! md_index (tl_rscs c ! j)" "fl \<subseteq> cap_flags (attrs ! j)"
        by blast
      then show ?thesis by (intro disjI2 exI [of _ j]) simp
    qed
  next
    case False
    then have sk: "device_select_loop ops sc c attrs fl i st
        = device_select_loop ops sc c attrs fl (i + 1) st"
      using lt by (intro device_select_loop_skip) auto
    from ih [OF Suc.prems [unfolded sk]] consider "best_rsc st = Some b"
      | "\<exists>j. i + 1 \<le> j \<and> j < num_tls c \<and> b = tl_rscs c ! j \<and>
        UCT_MD_FLAG_REG \<in> tl_mds c ! md_index (tl_rscs c ! j) \<and> fl \<subseteq> cap_flags (attrs ! j)"
      by blast
    then show ?thesis
    proof cases
      case 1
      then show ?thesis by (rule disjI1)
    next
      case 2
      then obtain j where "i + 1 \<le> j" "j < num_tls c" "b = tl_rscs c ! j"
        "UCT_MD_FLAG_REG \<in> tl_mds c ! md_index (tl_rscs c ! j)" "fl \<subseteq> cap_flags (attrs ! j)"
        by blast
      then show ?thesis by (intro disjI2 exI [of _ j]) simp
    qed
  qed
qed

lemma device_select_loop_best_keeps:
  "best_rsc st \<noteq> None \<Longrightarrow> best_rsc (device_select_loop ops sc c attrs fl i st) \<noteq> None"
proof (induction "num_tls c - i" arbitrary: i st)
  case 0
  then show ?case by (auto simp: device_select_loop_end)
next
  case (Suc d)
  then have lt: "i < num_tls c" and d: "d = num_tls c - (i + 1)" by simp_all
  note ih = Suc.hyps(1) [OF d]
  show ?case
  proof (cases "UCT_MD_FLAG_REG \<in> tl_mds c ! md_index (tl_rscs c ! i) \<and>
      fl \<subseteq> cap_flags (attrs ! i)")
    case True
    then have q1: "UCT_MD_FLAG_REG \<in> tl_mds c ! md_index (tl_rscs c ! i)"
      and q2: "fl \<subseteq> cap_flags (attrs ! i)" by simp_all
    let ?st' = "(if d_gt ops (sc i) (best_score st) \<or>
           (d_eq ops (sc i) (best_score st) \<and> priority (attrs ! i) > best_priority st)
        then st\<lparr> supp_tls := supp_tls st OR UCS_BIT i, best_rsc := Some (tl_rscs c ! i),
                 best_score := sc i, best_priority := priority (attrs ! i) \<rparr>
        else st\<lparr> supp_tls := supp_tls st OR UCS_BIT i \<rparr>)"
    have "best_rsc ?st' \<noteq> None" using Suc.prems by simp
    then have "best_rsc (device_select_loop ops sc c attrs fl (i + 1) ?st') \<noteq> None"
      by (rule ih)
    then show ?thesis unfolding device_select_loop_take [OF lt q1 q2] .
  next
    case False
    then have sk: "device_select_loop ops sc c attrs fl i st
        = device_select_loop ops sc c attrs fl (i + 1) st"
      using lt by (intro device_select_loop_skip) auto
    show ?thesis unfolding sk using Suc.prems by (rule ih)
  qed
qed

lemma device_select_loop_best_found:
  assumes "best_rsc st = None"
  shows "best_rsc (device_select_loop ops sc c attrs fl i st) \<noteq> None \<longleftrightarrow>
     (\<exists>j. i \<le> j \<and> j < num_tls c \<and>
          (UCT_MD_FLAG_REG \<in> tl_mds c ! md_index (tl_rscs c ! j) \<and> fl \<subseteq> cap_flags (attrs ! j) \<and>
          (d_gt ops (sc j) (best_score st) \<or>
           (d_eq ops (sc j) (best_score st) \<and> priority (attrs ! j) > best_priority st))))"
  using assms
proof (induction "num_tls c - i" arbitrary: i st)
  case 0
  then show ?case by (auto simp: device_select_loop_end)
next
  case (Suc d)
  then have lt: "i < num_tls c" and d: "d = num_tls c - (i + 1)" by simp_all
  note ih = Suc.hyps(1) [OF d]
  let ?Q = "\<lambda>j. UCT_MD_FLAG_REG \<in> tl_mds c ! md_index (tl_rscs c ! j) \<and>
      fl \<subseteq> cap_flags (attrs ! j)"
  let ?B = "\<lambda>j. d_gt ops (sc j) (best_score st) \<or>
           (d_eq ops (sc j) (best_score st) \<and> priority (attrs ! j) > best_priority st)"
  note split = ex_from_split [OF lt, of "\<lambda>j. UCT_MD_FLAG_REG \<in> tl_mds c ! md_index (tl_rscs c ! j) \<and>
      fl \<subseteq> cap_flags (attrs ! j) \<and> (d_gt ops (sc j) (best_score st) \<or>
           (d_eq ops (sc j) (best_score st) \<and> priority (attrs ! j) > best_priority st))"]
  show ?case
  proof (cases "?Q i")
    case False
    then have sk: "device_select_loop ops sc c attrs fl i st
        = device_select_loop ops sc c attrs fl (i + 1) st"
      using lt by (intro device_select_loop_skip) auto
    have lhs: "best_rsc (device_select_loop ops sc c attrs fl i st) \<noteq> None \<longleftrightarrow>
        (\<exists>j. i + 1 \<le> j \<and> j < num_tls c \<and>
          (UCT_MD_FLAG_REG \<in> tl_mds c ! md_index (tl_rscs c ! j) \<and> fl \<subseteq> cap_flags (attrs ! j) \<and>
          (d_gt ops (sc j) (best_score st) \<or>
           (d_eq ops (sc j) (best_score st) \<and> priority (attrs ! j) > best_priority st))))"
      unfolding sk by (rule ih [OF Suc.prems])
    show ?thesis unfolding lhs split using False by blast
  next
    case True
    then have q1: "UCT_MD_FLAG_REG \<in> tl_mds c ! md_index (tl_rscs c ! i)"
      and q2: "fl \<subseteq> cap_flags (attrs ! i)" by simp_all
    show ?thesis
    proof (cases "?B i")
      case b: True
      let ?st' = "st\<lparr> supp_tls := supp_tls st OR UCS_BIT i, best_rsc := Some (tl_rscs c ! i),
                 best_score := sc i, best_priority := priority (attrs ! i) \<rparr>"
      have eq: "device_select_loop ops sc c attrs fl i st
          = device_select_loop ops sc c attrs fl (i + 1) ?st'"
        by (simp only: device_select_loop_take [OF lt q1 q2] if_P [OF b])
      have "best_rsc ?st' \<noteq> None" by simp
      then have "best_rsc (device_select_loop ops sc c attrs fl (i + 1) ?st') \<noteq> None"
        by (rule device_select_loop_best_keeps)
      then have "best_rsc (device_select_loop ops sc c attrs fl i st) \<noteq> None"
        unfolding eq .
      then show ?thesis unfolding split using True b by blast
    next
      case nb: False
      let ?st' = "st\<lparr> supp_tls := supp_tls st OR UCS_BIT i \<rparr>"
      have eq: "device_select_loop ops sc c attrs fl i st
          = device_select_loop ops sc c attrs fl (i + 1) ?st'"
        by (simp only: device_select_loop_take [OF lt q1 q2] if_not_P [OF nb])
      have none: "best_rsc ?st' = None" using Suc.prems by simp
      have lhs: "best_rsc (device_select_loop ops sc c attrs fl i st) \<noteq> None \<longleftrightarrow>
        (\<exists>j. i + 1 \<le> j \<and> j < num_tls c \<and>
          (UCT_MD_FLAG_REG \<in> tl_mds c ! md_index (tl_rscs c ! j) \<and> fl \<subseteq> cap_flags (attrs ! j) \<and>
          (d_gt ops (sc j) (best_score st) \<or>
           (d_eq ops (sc j) (best_score st) \<and> priority (attrs ! j) > best_priority st))))"
        unfolding eq using ih [OF none] by simp
      show ?thesis unfolding lhs split using nb by blast
    qed
  qed
qed

lemma accumulate_flags_loop_mem:
  "f \<in> accumulate_flags_loop c attrs i acc \<longleftrightarrow>
     f \<in> acc \<or> (\<exists>j. i \<le> j \<and> j < num_tls c \<and> f \<in> cap_flags (attrs ! j))"
proof (induction c attrs i acc rule: accumulate_flags_loop.induct)
  case (1 c attrs i acc)
  show ?case
  proof (cases "i < num_tls c")
    case True
    note ex_from_split [OF True, of "\<lambda>j. f \<in> cap_flags (attrs ! j)"]
    then show ?thesis
      using True "1.IH" [OF True] by (subst accumulate_flags_loop.simps) auto
  next
    case False
    then show ?thesis by (subst accumulate_flags_loop.simps) auto
  qed
qed

lemma cpu_atomics_nonempty:
  assumes "num_tls c \<le> 64"
  shows "ucp_worker_init_cpu_atomics c attrs 0 \<noteq> 0 \<longleftrightarrow>
     (\<exists>j<num_tls c. UCT_IFACE_FLAG_ATOMIC_CPU \<in> cap_flags (attrs ! j))"
proof
  assume "ucp_worker_init_cpu_atomics c attrs 0 \<noteq> 0"
  then obtain j where "bit (ucp_worker_init_cpu_atomics c attrs 0) j"
    unfolding word64_zero_iff by blast
  then have "j < num_tls c \<and> UCT_IFACE_FLAG_ATOMIC_CPU \<in> cap_flags (attrs ! j)"
    by (simp add: ucp_worker_init_cpu_atomics_def bit_cpu_atomics_loop)
  then show "\<exists>j<num_tls c. UCT_IFACE_FLAG_ATOMIC_CPU \<in> cap_flags (attrs ! j)" by blast
next
  assume "\<exists>j<num_tls c. UCT_IFACE_FLAG_ATOMIC_CPU \<in> cap_flags (attrs ! j)"
  then obtain j where j: "j < num_tls c" "UCT_IFACE_FLAG_ATOMIC_CPU \<in> cap_flags (attrs ! j)"
    by blast
  then have "j < 64" using assms by simp
  with j have "bit (ucp_worker_init_cpu_atomics c attrs 0) j"
    by (simp add: ucp_worker_init_cpu_atomics_def bit_cpu_atomics_loop)
  then show "ucp_worker_init_cpu_atomics c attrs 0 \<noteq> 0"
    unfolding word64_zero_iff by blast
qed

lemma device_atomics_nonempty:
  assumes "num_tls c \<le> 64"
  shows "ucp_worker_init_device_atomics ops sc n c attrs 0 \<noteq> 0 \<longleftrightarrow>
     (\<exists>j<num_tls c. atomic_device_capable c attrs j \<and> beats_initial_best ops sc attrs j)"
proof -
  define fl where "fl = uct_atomic_iface_flags c \<union> {UCT_IFACE_FLAG_ATOMIC_DEVICE}"
  define st0 :: "'a device_select" where
    "st0 = \<lparr> supp_tls = 0, best_rsc = None, best_score = d_neg_one ops, best_priority = 0 \<rparr>"
  define st where "st = device_select_loop ops sc c attrs fl 0 st0"
  have unf: "ucp_worker_init_device_atomics ops sc n c attrs 0 =
      (case best_rsc st of None \<Rightarrow> 0
       | Some best \<Rightarrow> device_enable_loop n c (supp_tls st) best 0 0)"
    unfolding ucp_worker_init_device_atomics_def Let_def st_def st0_def fl_def ..
  have cap: "atomic_device_capable c attrs j \<longleftrightarrow>
      UCT_MD_FLAG_REG \<in> tl_mds c ! md_index (tl_rscs c ! j) \<and> fl \<subseteq> cap_flags (attrs ! j)" for j
    unfolding atomic_device_capable_def fl_def ..
  have st0: "best_rsc st0 = None" "best_score st0 = d_neg_one ops" "best_priority st0 = 0"
    by (simp_all add: st0_def)
  have found: "best_rsc st \<noteq> None \<longleftrightarrow>
      (\<exists>j<num_tls c. atomic_device_capable c attrs j \<and> beats_initial_best ops sc attrs j)"
    unfolding st_def device_select_loop_best_found [OF st0(1)] cap beats_initial_best_def st0
    by simp
  show ?thesis
  proof (cases "best_rsc st")
    case None
    then have "ucp_worker_init_device_atomics ops sc n c attrs 0 = 0"
      by (simp add: unf)
    with None found show ?thesis by simp
  next
    case (Some b)
    have "best_rsc st0 \<noteq> Some b" by (simp add: st0)
    with device_select_loop_best_origin [OF Some [unfolded st_def]]
    have "\<exists>j. 0 \<le> j \<and> j < num_tls c \<and> b = tl_rscs c ! j \<and>
        UCT_MD_FLAG_REG \<in> tl_mds c ! md_index (tl_rscs c ! j) \<and> fl \<subseteq> cap_flags (attrs ! j)"
      by blast
    then obtain j where j: "j < num_tls c" "b = tl_rscs c ! j"
      "UCT_MD_FLAG_REG \<in> tl_mds c ! md_index (tl_rscs c ! j)" "fl \<subseteq> cap_flags (attrs ! j)"
      by blast
    have j64: "j < 64" using j(1) assms by simp
    have supp: "bit (supp_tls st) j"
      unfolding st_def device_select_loop_supp using j j64 by simp
    have "bit (device_enable_loop n c (supp_tls st) b 0 0) j"
      unfolding bit_device_enable_loop using j(1,2) j64 supp by (simp add: strncmp_eq_def)
    then have "device_enable_loop n c (supp_tls st) b 0 0 \<noteq> 0"
      unfolding word64_zero_iff by blast
    then have "ucp_worker_init_device_atomics ops sc n c attrs 0 \<noteq> 0"
      using Some by (simp add: unf)
    moreover have "best_rsc st \<noteq> None" using Some by simp
    ultimately show ?thesis using found by blast
  qed
qed

subsection \<open>Parameter and capability checks\<close>









text \<open>
  Beyond the width of \<^verbatim>\<open>ucs_status_t\<close> the conversion of \<^verbatim>\<open>message_size\<close> shows: with an
  8-bit enumeration a total of 260 bytes is taken for 4, with a 32-bit one a total of
  \<open>2\<^sup>3\<^sup>2 + 4\<close> bytes.
\<close>

lemma ucp_check_params_converted_size:
  "ucx_perf_get_message_size (example_params\<lparr>msg_size_list := [260]\<rparr>) = 260 \<and>
   ucp_perf_test_check_params 8 (example_params\<lparr>msg_size_list := [260]\<rparr>)
     = (UCS_OK, Some {UCP_FEATURE_AMO32}) \<and>
   ucp_perf_test_check_params 32 (example_params\<lparr>msg_size_list := [4294967300]\<rparr>)
     = (UCS_OK, Some {UCP_FEATURE_AMO32})"
  by (simp add: example_params_def ucx_perf_get_message_size_def
      ucp_perf_test_check_params_def size_as_ucs_status_t_def ucx_perf_test_check_params_def
      Let_def)

subsection \<open>Quickselect returns the lower median\<close>

lemma c_div_nonneg: "0 \<le> a \<Longrightarrow> c_div a 2 = a div 2"
  by (cases "a = 0") (simp_all add: c_div_def sgn_if)

lemma ELEM_SWAP_Some:
  "in_bounds arr a \<Longrightarrow> in_bounds arr b \<Longrightarrow>
   ELEM_SWAP arr a b = Some (arr[nat a := el arr b, nat b := el arr a])"
  by (simp add: ELEM_SWAP_def)

lemma ELEM_SWAP_props:
  assumes "ELEM_SWAP arr a b = Some arr'"
  shows "length arr' = length arr" and "mset arr' = mset arr"
    and "\<And>k. 0 \<le> k \<Longrightarrow> k < int (length arr) \<Longrightarrow>
           el arr' k = (if k = b then el arr a else if k = a then el arr b else el arr k)"
proof -
  have ib: "in_bounds arr a \<and> in_bounds arr b"
    using assms by (cases "in_bounds arr a \<and> in_bounds arr b") (simp_all add: ELEM_SWAP_def)
  have eq: "arr' = arr[nat a := el arr b, nat b := el arr a]"
    using assms ib by (simp add: ELEM_SWAP_def)
  show "length arr' = length arr" by (simp add: eq)
  have a0: "0 \<le> a" and b0: "0 \<le> b" using ib by (simp_all add: in_bounds_def)
  have na: "nat a < length arr" and nb: "nat b < length arr"
    using ib by (simp_all add: in_bounds_def nat_less_iff)
  show "mset arr' = mset arr"
    unfolding eq el_def by (rule mset_swap [OF nb na])
  fix k :: int
  assume k: "0 \<le> k" "k < int (length arr)"
  have nk: "nat k < length arr" using k by (simp add: nat_less_iff)
  have e1: "nat k = nat a \<longleftrightarrow> k = a" by (rule eq_nat_nat_iff [OF k(1) a0])
  have e2: "nat k = nat b \<longleftrightarrow> k = b" by (rule eq_nat_nat_iff [OF k(1) b0])
  have "arr[nat a := el arr b, nat b := el arr a] ! nat k =
      (if nat k = nat b then el arr a else if nat k = nat a then el arr b else arr ! nat k)"
    using nk na nb by (simp add: nth_list_update)
  then show "el arr' k = (if k = b then el arr a else if k = a then el arr b else el arr k)"
    unfolding eq e1 e2 by (simp add: el_def)
qed

lemma perm_within_refl: "perm_within arr arr lo hi"
  unfolding perm_within_def by blast

lemma perm_within_length: "perm_within arr arr' lo hi \<Longrightarrow> length arr' = length arr"
  by (simp add: perm_within_def)

lemma perm_within_mset: "perm_within arr arr' lo hi \<Longrightarrow> mset arr' = mset arr"
  by (simp add: perm_within_def)

lemma perm_within_frame:
  "perm_within arr arr' lo hi \<Longrightarrow> 0 \<le> k \<Longrightarrow> k < int (length arr) \<Longrightarrow> k < lo \<or> hi < k \<Longrightarrow>
   el arr' k = el arr k"
  by (simp add: perm_within_def)

lemma perm_within_from:
  "perm_within arr arr' lo hi \<Longrightarrow> lo \<le> k \<Longrightarrow> k \<le> hi \<Longrightarrow>
   \<exists>j. lo \<le> j \<and> j \<le> hi \<and> el arr' k = el arr j"
  by (simp add: perm_within_def)

lemma perm_within_trans:
  assumes "perm_within a b lo hi" and "perm_within b c lo hi"
  shows "perm_within a c lo hi"
proof -
  have len: "length b = length a" "length c = length b"
    using assms by (simp_all add: perm_within_length)
  have ms: "mset c = mset a" using assms by (simp add: perm_within_mset)
  have fr: "el c k = el a k" if "0 \<le> k" "k < int (length a)" "k < lo \<or> hi < k" for k
    using perm_within_frame [OF assms(1) that] perm_within_frame [OF assms(2), of k] that len
    by simp
  have cf: "\<exists>j. lo \<le> j \<and> j \<le> hi \<and> el c k = el a j" if "lo \<le> k" "k \<le> hi" for k
  proof -
    from perm_within_from [OF assms(2) that] obtain j where
      j: "lo \<le> j" "j \<le> hi" "el c k = el b j" by blast
    from perm_within_from [OF assms(1) j(1,2)] obtain i where
      "lo \<le> i" "i \<le> hi" "el b j = el a i" by blast
    with j(3) show ?thesis by auto
  qed
  show ?thesis unfolding perm_within_def using len ms fr cf by simp
qed

lemma perm_within_widen:
  assumes "perm_within a b lo hi" and "lo' \<le> lo" and "hi \<le> hi'"
    and "0 \<le> lo'" and "hi' < int (length a)"
  shows "perm_within a b lo' hi'"
proof -
  have fr: "el b k = el a k" if "0 \<le> k" "k < int (length a)" "k < lo' \<or> hi' < k" for k
    using perm_within_frame [OF assms(1) that(1,2)] that(3) assms(2,3) by auto
  have cf: "\<exists>j. lo' \<le> j \<and> j \<le> hi' \<and> el b k = el a j" if k: "lo' \<le> k" "k \<le> hi'" for k
  proof (cases "lo \<le> k \<and> k \<le> hi")
    case True
    with perm_within_from [OF assms(1), of k] obtain j where
      "lo \<le> j" "j \<le> hi" "el b k = el a j" by blast
    with assms(2,3) show ?thesis by (intro exI [of _ j]) simp
  next
    case False
    then have "k < lo \<or> hi < k" by auto
    moreover have "0 \<le> k" "k < int (length a)" using k assms(4,5) by simp_all
    ultimately have "el b k = el a k" using perm_within_frame [OF assms(1)] by blast
    with k show ?thesis by (intro exI [of _ k]) simp
  qed
  show ?thesis
    unfolding perm_within_def
    using perm_within_length [OF assms(1)] perm_within_mset [OF assms(1)] fr cf by simp
qed

lemma perm_within_ELEM_SWAP:
  assumes "ELEM_SWAP arr a b = Some arr'"
    and "lo \<le> a" "a \<le> hi" "lo \<le> b" "b \<le> hi" "0 \<le> lo" "hi < int (length arr)"
  shows "perm_within arr arr' lo hi"
proof -
  note p = ELEM_SWAP_props [OF assms(1)]
  have fr: "el arr' k = el arr k" if "0 \<le> k" "k < int (length arr)" "k < lo \<or> hi < k" for k
    using p(3) [OF that(1,2)] that(3) assms(2-5) by auto
  have cf: "\<exists>j. lo \<le> j \<and> j \<le> hi \<and> el arr' k = el arr j" if k: "lo \<le> k" "k \<le> hi" for k
  proof -
    have kb: "0 \<le> k" "k < int (length arr)" using k assms(6,7) by simp_all
    consider "k = b" | "k \<noteq> b" "k = a" | "k \<noteq> b" "k \<noteq> a" by blast
    then show ?thesis
    proof cases
      case 1
      then show ?thesis using p(3) [OF kb] assms(2,3) by (intro exI [of _ a]) simp
    next
      case 2
      then show ?thesis using p(3) [OF kb] assms(4,5) by (intro exI [of _ b]) simp
    next
      case 3
      then show ?thesis using p(3) [OF kb] k by (intro exI [of _ k]) simp
    qed
  qed
  show ?thesis unfolding perm_within_def using p(1,2) fr cf by simp
qed

lemma swap_if_greater_props:
  assumes "in_bounds arr a" and "in_bounds arr b"
    and "lo \<le> a" "a \<le> hi" "lo \<le> b" "b \<le> hi" "0 \<le> lo" "hi < int (length arr)"
  shows "\<exists>arr'. swap_if_greater arr a b = Some arr' \<and> perm_within arr arr' lo hi \<and>
     el arr' a \<le> el arr' b \<and>
     (\<forall>k. 0 \<le> k \<and> k < int (length arr) \<and> k \<noteq> a \<and> k \<noteq> b \<longrightarrow> el arr' k = el arr k) \<and>
     (el arr' a = el arr a \<and> el arr' b = el arr b \<or>
      el arr' a = el arr b \<and> el arr' b = el arr a)"
proof (cases "el arr a > el arr b")
  case True
  define arr' where "arr' = arr[nat a := el arr b, nat b := el arr a]"
  have sw: "ELEM_SWAP arr a b = Some arr'"
    using assms(1,2) by (simp add: ELEM_SWAP_Some arr'_def)
  note p = ELEM_SWAP_props [OF sw]
  have ab: "0 \<le> a" "a < int (length arr)" "0 \<le> b" "b < int (length arr)"
    using assms(1,2) by (simp_all add: in_bounds_def)
  have ne: "a \<noteq> b" using True by auto
  have va: "el arr' a = el arr b" using p(3) [OF ab(1,2)] ne by simp
  have vb: "el arr' b = el arr a" using p(3) [OF ab(3,4)] by simp
  have others: "\<forall>k. 0 \<le> k \<and> k < int (length arr) \<and> k \<noteq> a \<and> k \<noteq> b \<longrightarrow> el arr' k = el arr k"
    using p(3) by simp
  have "swap_if_greater arr a b = Some arr'"
    using assms(1,2) True sw by (simp add: swap_if_greater_def)
  moreover have "perm_within arr arr' lo hi"
    by (rule perm_within_ELEM_SWAP [OF sw assms(3-8)])
  moreover have "el arr' a \<le> el arr' b" using va vb True by simp
  ultimately show ?thesis using others va vb by blast
next
  case False
  then have "swap_if_greater arr a b = Some arr"
    using assms(1,2) by (simp add: swap_if_greater_def)
  moreover have "el arr a \<le> el arr b" using False by simp
  ultimately show ?thesis using perm_within_refl [of arr lo hi] by blast
qed

lemma scan_up_spec:
  assumes "in_bounds arr low" and "0 \<le> ll + 1" and "ll < s" and "s < int (length arr)"
    and "\<not> el arr low > el arr s"
  shows "\<exists>ll'. scan_up arr low ll = Some ll' \<and> ll < ll' \<and> ll' \<le> s \<and>
     el arr low \<le> el arr ll' \<and> (\<forall>k. ll < k \<and> k < ll' \<longrightarrow> el arr k < el arr low)"
  using assms(2,3)
proof (induction "nat (s - ll)" arbitrary: ll rule: less_induct)
  case less
  have ib: "in_bounds arr (ll + 1)"
    using less.prems assms(4) by (simp add: in_bounds_def)
  show ?case
  proof (cases "el arr low > el arr (ll + 1)")
    case True
    then have "ll + 1 \<noteq> s" using assms(5) by auto
    then have lt: "ll + 1 < s" using less.prems by simp
    have "nat (s - (ll + 1)) < nat (s - ll)" using lt by simp
    from less.hyps [OF this _ lt] less.prems obtain ll' where
      r: "scan_up arr low (ll + 1) = Some ll'" "ll + 1 < ll'" "ll' \<le> s"
        "el arr low \<le> el arr ll'" "\<forall>k. ll + 1 < k \<and> k < ll' \<longrightarrow> el arr k < el arr low"
      by auto
    have "scan_up arr low ll = Some ll'"
      using assms(1) ib True r(1) by (subst scan_up.simps) (simp add: Let_def)
    moreover have "\<forall>k. ll < k \<and> k < ll' \<longrightarrow> el arr k < el arr low"
    proof (intro allI impI)
      fix k assume "ll < k \<and> k < ll'"
      then have "k = ll + 1 \<or> (ll + 1 < k \<and> k < ll')" by auto
      then show "el arr k < el arr low" using True r(5) by auto
    qed
    ultimately show ?thesis using r(2,3,4) by (intro exI [of _ ll']) simp
  next
    case False
    have "scan_up arr low ll = Some (ll + 1)"
      using assms(1) ib False by (subst scan_up.simps) (simp add: Let_def)
    moreover have "el arr low \<le> el arr (ll + 1)" using False by simp
    moreover have "\<forall>k. ll < k \<and> k < ll + 1 \<longrightarrow> el arr k < el arr low" by auto
    ultimately show ?thesis using less.prems by (intro exI [of _ "ll + 1"]) simp
  qed
qed

lemma scan_down_spec:
  assumes "in_bounds arr low" and "hh - 1 < int (length arr)" and "s < hh" and "0 \<le> s"
    and "\<not> el arr s > el arr low"
  shows "\<exists>hh'. scan_down arr low hh = Some hh' \<and> hh' < hh \<and> s \<le> hh' \<and>
     el arr hh' \<le> el arr low \<and> (\<forall>k. hh' < k \<and> k < hh \<longrightarrow> el arr low < el arr k)"
  using assms(2,3)
proof (induction "nat (hh - s)" arbitrary: hh rule: less_induct)
  case less
  have ib: "in_bounds arr (hh - 1)"
    using less.prems assms(4) by (simp add: in_bounds_def)
  show ?case
  proof (cases "el arr (hh - 1) > el arr low")
    case True
    then have "hh - 1 \<noteq> s" using assms(5) by auto
    then have lt: "s < hh - 1" using less.prems by simp
    have "nat (hh - 1 - s) < nat (hh - s)" using lt by simp
    from less.hyps [OF this _ lt] less.prems obtain hh' where
      r: "scan_down arr low (hh - 1) = Some hh'" "hh' < hh - 1" "s \<le> hh'"
        "el arr hh' \<le> el arr low" "\<forall>k. hh' < k \<and> k < hh - 1 \<longrightarrow> el arr low < el arr k"
      by auto
    have "scan_down arr low hh = Some hh'"
      using assms(1) ib True r(1) by (subst scan_down.simps) (simp add: Let_def)
    moreover have "\<forall>k. hh' < k \<and> k < hh \<longrightarrow> el arr low < el arr k"
    proof (intro allI impI)
      fix k assume "hh' < k \<and> k < hh"
      then have "k = hh - 1 \<or> (hh' < k \<and> k < hh - 1)" by auto
      then show "el arr low < el arr k" using True r(5) by auto
    qed
    ultimately show ?thesis using r(2,3,4) by (intro exI [of _ hh']) simp
  next
    case False
    have "scan_down arr low hh = Some (hh - 1)"
      using assms(1) ib False by (subst scan_down.simps) (simp add: Let_def)
    moreover have "el arr (hh - 1) \<le> el arr low" using False by simp
    moreover have "\<forall>k. hh - 1 < k \<and> k < hh \<longrightarrow> el arr low < el arr k" by auto
    ultimately show ?thesis using less.prems by (intro exI [of _ "hh - 1"]) simp
  qed
qed

lemma partition_loop_spec:
  fixes arr :: "ucs_time_t list"
  assumes "0 \<le> low" and "high < int (length arr)"
    and "low < ll" and "ll \<le> hh" and "hh \<le> high"
    and "\<forall>k. low < k \<and> k \<le> ll \<longrightarrow> el arr k \<le> el arr low"
    and "\<forall>k. hh \<le> k \<and> k \<le> high \<longrightarrow> el arr low \<le> el arr k"
    and "ll < hh \<or> hh < high"
  shows "\<exists>arr' ll' hh'. partition_loop arr low ll hh = Some (arr', ll', hh') \<and>
      perm_within arr arr' (ll + 1) (hh - 1) \<and> el arr' low = el arr low \<and>
      low \<le> hh' \<and> hh' < ll' \<and> ll < ll' \<and> ll' \<le> high \<and>
      (\<forall>k. low < k \<and> k < ll' \<longrightarrow> el arr' k \<le> el arr' low) \<and>
      (\<forall>k. hh' < k \<and> k \<le> high \<longrightarrow> el arr' low \<le> el arr' k) \<and>
      el arr' hh' \<le> el arr' low"
  using assms(2-)
proof (induction "nat (hh - ll)" arbitrary: arr ll hh rule: less_induct)
  case less
  note len = less.prems(1) and lt = less.prems(2) and le = less.prems(3) and hi = less.prems(4)
    and left = less.prems(5) and right = less.prems(6) and gap = less.prems(7)
  have ib_low: "in_bounds arr low"
    using assms(1) lt le hi len by (simp add: in_bounds_def)
  \<comment> \<open>the upward scan stops at the latest at a sentinel\<close>
  define s_up where "s_up = (if ll < hh then hh else hh + 1)"
  have s_up: "ll < s_up" "hh \<le> s_up" "s_up \<le> high"
    using le gap hi by (auto simp: s_up_def)
  have "\<not> el arr low > el arr s_up" using right s_up by (simp add: not_less)
  from scan_up_spec [OF ib_low _ s_up(1) _ this] assms(1) lt s_up(3) len
  obtain ll1 where up: "scan_up arr low ll = Some ll1" "ll < ll1" "ll1 \<le> s_up"
    "el arr low \<le> el arr ll1" "\<forall>k. ll < k \<and> k < ll1 \<longrightarrow> el arr k < el arr low"
    by auto
  \<comment> \<open>the downward scan stops at the latest at a sentinel\<close>
  define s_dn where "s_dn = (if ll < hh then ll else ll - 1)"
  have s_dn: "s_dn < hh" "low \<le> s_dn" "s_dn \<le> ll"
    using le lt by (auto simp: s_dn_def)
  have "el arr s_dn \<le> el arr low"
  proof (cases "s_dn = low")
    case True
    then show ?thesis by simp
  next
    case False
    then show ?thesis using left s_dn by simp
  qed
  then have "\<not> el arr s_dn > el arr low" by (simp add: not_less)
  from scan_down_spec [OF ib_low _ s_dn(1) _ this] assms(1) s_dn(2) hi len
  obtain hh1 where down: "scan_down arr low hh = Some hh1" "hh1 < hh" "s_dn \<le> hh1"
    "el arr hh1 \<le> el arr low" "\<forall>k. hh1 < k \<and> k < hh \<longrightarrow> el arr low < el arr k"
    by auto
  have unfold: "partition_loop arr low ll hh =
      (if hh1 < ll1 then Some (arr, ll1, hh1)
       else Option.bind (ELEM_SWAP arr ll1 hh1) (\<lambda>arr. partition_loop arr low ll1 hh1))"
    by (subst partition_loop.simps) (simp add: up(1) down(1))
  have left1: "\<forall>k. low < k \<and> k < ll1 \<longrightarrow> el arr k \<le> el arr low"
  proof (intro allI impI)
    fix k assume k: "low < k \<and> k < ll1"
    show "el arr k \<le> el arr low"
    proof (cases "k \<le> ll")
      case True
      then show ?thesis using left k by simp
    next
      case False
      then have "el arr k < el arr low" using up(5) k by simp
      then show ?thesis by simp
    qed
  qed
  have right1: "\<forall>k. hh1 < k \<and> k \<le> high \<longrightarrow> el arr low \<le> el arr k"
  proof (intro allI impI)
    fix k assume k: "hh1 < k \<and> k \<le> high"
    show "el arr low \<le> el arr k"
    proof (cases "hh \<le> k")
      case True
      then show ?thesis using right k by simp
    next
      case False
      then have "el arr low < el arr k" using down(5) k by simp
      then show ?thesis by simp
    qed
  qed
  show ?case
  proof (cases "hh1 < ll1")
    case True
    have "partition_loop arr low ll hh = Some (arr, ll1, hh1)"
      using unfold True by simp
    moreover have "low \<le> hh1" using s_dn(2) down(3) by simp
    moreover have "ll1 \<le> high" using up(3) s_up(3) by simp
    ultimately show ?thesis
      using perm_within_refl [of arr "ll + 1" "hh - 1"] True up(2) left1 right1 down(4)
      by (intro exI [of _ arr] exI [of _ ll1] exI [of _ hh1]) simp
  next
    case False
    then have cross: "ll1 \<le> hh1" by simp
    have ib1: "in_bounds arr ll1" "in_bounds arr hh1"
      using assms(1) lt up(2) cross down(2) hi len by (simp_all add: in_bounds_def)
    define arr2 where "arr2 = arr[nat ll1 := el arr hh1, nat hh1 := el arr ll1]"
    have sw: "ELEM_SWAP arr ll1 hh1 = Some arr2"
      using ib1 by (simp add: ELEM_SWAP_Some arr2_def)
    note p = ELEM_SWAP_props [OF sw]
    have el2: "el arr2 k = (if k = hh1 then el arr ll1 else if k = ll1 then el arr hh1
        else el arr k)" if "low \<le> k" "k \<le> high" for k
      using p(3) [of k] that assms(1) len by simp
    have low2: "el arr2 low = el arr low"
      using el2 [of low] lt up(2) cross hi le by simp
    have len2: "high < int (length arr2)" using len p(1) by simp
    have left2: "\<forall>k. low < k \<and> k \<le> ll1 \<longrightarrow> el arr2 k \<le> el arr2 low"
    proof (intro allI impI)
      fix k assume k: "low < k \<and> k \<le> ll1"
      have kr: "low \<le> k" "k \<le> high" using k cross down(2) hi by simp_all
      show "el arr2 k \<le> el arr2 low"
      proof (cases "k = ll1")
        case True
        then have "el arr2 k = el arr hh1" using el2 [OF kr] by simp
        then show ?thesis using down(4) low2 by simp
      next
        case False
        then have "k < ll1" using k by simp
        then have "el arr2 k = el arr k" using el2 [OF kr] cross by simp
        then show ?thesis using left1 k \<open>k < ll1\<close> low2 by simp
      qed
    qed
    have right2: "\<forall>k. hh1 \<le> k \<and> k \<le> high \<longrightarrow> el arr2 low \<le> el arr2 k"
    proof (intro allI impI)
      fix k assume k: "hh1 \<le> k \<and> k \<le> high"
      have kr: "low \<le> k" "k \<le> high" using k cross up(2) lt by simp_all
      show "el arr2 low \<le> el arr2 k"
      proof (cases "k = hh1")
        case True
        then have "el arr2 k = el arr ll1" using el2 [OF kr] by simp
        then show ?thesis using up(4) low2 by simp
      next
        case False
        then have "hh1 < k" using k by simp
        then have "el arr2 k = el arr k" using el2 [OF kr] cross by simp
        then show ?thesis using right1 k \<open>hh1 < k\<close> low2 by simp
      qed
    qed
    have meas: "nat (hh1 - ll1) < nat (hh - ll)" using up(2) cross down(2) by simp
    have "low < ll1" using lt up(2) by simp
    moreover have "hh1 \<le> high" using down(2) hi by simp
    moreover have "ll1 < hh1 \<or> hh1 < high" using down(2) hi by simp
    ultimately obtain arr' ll' hh' where
      r: "partition_loop arr2 low ll1 hh1 = Some (arr', ll', hh')"
        "perm_within arr2 arr' (ll1 + 1) (hh1 - 1)" "el arr' low = el arr2 low"
        "low \<le> hh'" "hh' < ll'" "ll1 < ll'" "ll' \<le> high"
        "\<forall>k. low < k \<and> k < ll' \<longrightarrow> el arr' k \<le> el arr' low"
        "\<forall>k. hh' < k \<and> k \<le> high \<longrightarrow> el arr' low \<le> el arr' k"
        "el arr' hh' \<le> el arr' low"
      using less.hyps [OF meas len2 _ cross _ left2 right2] by blast
    have "partition_loop arr low ll hh = Some (arr', ll', hh')"
      using unfold False sw r(1) by simp
    moreover have "perm_within arr arr' (ll + 1) (hh - 1)"
    proof (rule perm_within_trans)
      show "perm_within arr arr2 (ll + 1) (hh - 1)"
        by (rule perm_within_ELEM_SWAP [OF sw]) (use up(2) cross down(2) assms(1) lt hi len in simp_all)
      show "perm_within arr2 arr' (ll + 1) (hh - 1)"
        by (rule perm_within_widen [OF r(2)]) (use up(2) down(2) assms(1) lt hi len2 in simp_all)
    qed
    moreover have "el arr' low = el arr low" using r(3) low2 by simp
    moreover have "ll < ll'" using up(2) r(6) by simp
    ultimately show ?thesis
      using r(4,5,7,8,9,10)
      by (intro exI [of _ arr'] exI [of _ ll'] exI [of _ hh']) simp
  qed
qed

lemma cutD:
  "cut arr c \<Longrightarrow> 0 \<le> i \<Longrightarrow> i < c \<Longrightarrow> c \<le> j \<Longrightarrow> j < int (length arr) \<Longrightarrow> el arr i \<le> el arr j"
  unfolding cut_def by blast

lemma cut_preserved:
  assumes pw: "perm_within arr arr' lo hi" and c: "cut arr c"
    and out: "c \<le> lo \<or> hi < c" and b: "0 \<le> lo" "hi < int (length arr)"
  shows "cut arr' c"
  unfolding cut_def
proof (intro allI impI)
  fix i j assume h: "0 \<le> i \<and> i < c \<and> c \<le> j \<and> j < int (length arr')"
  have len: "length arr' = length arr" by (rule perm_within_length [OF pw])
  have ij: "0 \<le> i" "i < c" "c \<le> j" "j < int (length arr)" "i < int (length arr)" "0 \<le> j"
    using h len by simp_all
  \<comment> \<open>where the two values come from\<close>
  have "\<exists>i'. 0 \<le> i' \<and> i' < c \<and> el arr' i = el arr i'"
  proof (cases "lo \<le> i \<and> i \<le> hi")
    case True
    with perm_within_from [OF pw] obtain i' where
      i': "lo \<le> i'" "i' \<le> hi" "el arr' i = el arr i'" by blast
    have "hi < c" using out True ij(2) by auto
    with i' b(1) show ?thesis by (intro exI [of _ i']) simp
  next
    case False
    then have "el arr' i = el arr i"
      using perm_within_frame [OF pw ij(1,5)] by auto
    with ij show ?thesis by (intro exI [of _ i]) simp
  qed
  then obtain i' where i': "0 \<le> i'" "i' < c" "el arr' i = el arr i'" by blast
  have "\<exists>j'. c \<le> j' \<and> j' < int (length arr) \<and> el arr' j = el arr j'"
  proof (cases "lo \<le> j \<and> j \<le> hi")
    case True
    with perm_within_from [OF pw] obtain j' where
      j': "lo \<le> j'" "j' \<le> hi" "el arr' j = el arr j'" by blast
    have "c \<le> lo" using out True ij(3) by auto
    with j' b(2) show ?thesis by (intro exI [of _ j']) simp
  next
    case False
    then have "el arr' j = el arr j"
      using perm_within_frame [OF pw ij(6,4)] by auto
    with ij show ?thesis by (intro exI [of _ j]) simp
  qed
  then obtain j' where j': "c \<le> j'" "j' < int (length arr)" "el arr' j = el arr j'" by blast
  show "el arr' i \<le> el arr' j"
    using cutD [OF c i'(1,2) j'(1,2)] i'(3) j'(3) by simp
qed

lemma settled_preserved:
  assumes pw: "perm_within arr arr' lo hi" and s: "settled arr m"
    and out: "m < lo \<or> hi < m" and m: "0 \<le> m" "m < int (length arr)"
    and b: "0 \<le> lo" "hi < int (length arr)"
  shows "settled arr' m"
proof -
  have len: "length arr' = length arr" by (rule perm_within_length [OF pw])
  have em: "el arr' m = el arr m" by (rule perm_within_frame [OF pw m out])
  have l: "el arr' i \<le> el arr' m" if i: "0 \<le> i" "i < m" for i
  proof (cases "lo \<le> i \<and> i \<le> hi")
    case True
    with perm_within_from [OF pw] obtain i' where
      i': "lo \<le> i'" "i' \<le> hi" "el arr' i = el arr i'" by blast
    have "hi < m" using out True i(2) by auto
    then have "0 \<le> i' \<and> i' < m" using i' b(1) by simp
    then have "el arr i' \<le> el arr m" using s unfolding settled_def by blast
    then show ?thesis using i'(3) em by simp
  next
    case False
    have "i < int (length arr)" using i m by simp
    then have "el arr' i = el arr i"
      using perm_within_frame [OF pw i(1)] False by auto
    moreover have "el arr i \<le> el arr m" using s i unfolding settled_def by blast
    ultimately show ?thesis using em by simp
  qed
  have r: "el arr' m \<le> el arr' j" if j: "m < j" "j < int (length arr)" for j
  proof (cases "lo \<le> j \<and> j \<le> hi")
    case True
    with perm_within_from [OF pw] obtain j' where
      j': "lo \<le> j'" "j' \<le> hi" "el arr' j = el arr j'" by blast
    have "m < lo" using out True j(1) by auto
    then have "m < j' \<and> j' < int (length arr)" using j' b(2) by simp
    then have "el arr m \<le> el arr j'" using s unfolding settled_def by blast
    then show ?thesis using j'(3) em by simp
  next
    case False
    have "0 \<le> j" using j m by simp
    then have "el arr' j = el arr j"
      using perm_within_frame [OF pw _ j(2)] False by auto
    moreover have "el arr m \<le> el arr j" using s j unfolding settled_def by blast
    ultimately show ?thesis using em by simp
  qed
  show ?thesis unfolding settled_def using l r len by simp
qed

lemma settled_in_range:
  assumes "cut arr low" and "cut arr (high + 1)" and "low \<le> m" and "m \<le> high"
    and "0 \<le> low" and "high < int (length arr)"
    and "\<forall>k. low \<le> k \<and> k < m \<longrightarrow> el arr k \<le> el arr m"
    and "\<forall>k. m < k \<and> k \<le> high \<longrightarrow> el arr m \<le> el arr k"
  shows "settled arr m"
  unfolding settled_def
proof (intro conjI allI impI)
  fix i assume i: "0 \<le> i \<and> i < m"
  show "el arr i \<le> el arr m"
  proof (cases "i < low")
    case True
    show ?thesis by (rule cutD [OF assms(1) _ True]) (use i assms(3,4,6) in simp_all)
  next
    case False
    then show ?thesis using assms(7) i by simp
  qed
next
  fix j assume j: "m < j \<and> j < int (length arr)"
  show "el arr m \<le> el arr j"
  proof (cases "j \<le> high")
    case True
    then show ?thesis using assms(8) j by simp
  next
    case False
    show ?thesis by (rule cutD [OF assms(2)]) (use j False assms(3,4,5) in simp_all)
  qed
qed

lemma settled_sort_nth:
  assumes s: "settled arr m" and m: "0 \<le> m" "m < int (length arr)"
  shows "sort arr ! nat m = el arr m"
proof -
  define k where "k = nat m"
  have k: "k < length arr" using m by (simp add: k_def nat_less_iff)
  define L where "L = take k arr"
  define R where "R = drop (Suc k) arr"
  define x where "x = arr ! k"
  have split: "arr = L @ x # R" unfolding L_def R_def x_def by (rule id_take_nth_drop [OF k])
  have lenL: "length L = k" using k by (simp add: L_def)
  have xm: "x = el arr m" by (simp add: x_def el_def k_def)
  have L: "y \<le> x" if "y \<in> set L" for y
  proof -
    from that obtain i where i: "i < length L" "y = L ! i" by (auto simp: in_set_conv_nth)
    then have "i < k" using lenL by simp
    have e: "el arr (int i) = arr ! i" unfolding el_def nat_int ..
    have "y = arr ! i" using i \<open>i < k\<close> by (simp add: L_def)
    then have yi: "y = el arr (int i)" unfolding e .
    have "0 \<le> int i \<and> int i < m" using \<open>i < k\<close> by (simp add: k_def)
    then have "el arr (int i) \<le> el arr m" using s unfolding settled_def by blast
    then show ?thesis using yi xm by simp
  qed
  have R: "x \<le> y" if "y \<in> set R" for y
  proof -
    from that obtain i where i: "i < length R" "y = R ! i" by (auto simp: in_set_conv_nth)
    then have lt: "Suc k + i < length arr" by (simp add: R_def)
    have e: "el arr (int (Suc k + i)) = arr ! (Suc k + i)" unfolding el_def nat_int ..
    have "y = arr ! (Suc k + i)" using i lt by (simp add: R_def)
    then have yi: "y = el arr (int (Suc k + i))" unfolding e .
    have "m < int (Suc k + i) \<and> int (Suc k + i) < int (length arr)"
      using lt m by (simp add: k_def)
    then have "el arr m \<le> el arr (int (Suc k + i))" using s unfolding settled_def by blast
    then show ?thesis using yi xm by simp
  qed
  have LR: "a \<le> b" if "a \<in> set L" "b \<in> set R" for a b
    using L [OF that(1)] R [OF that(2)] by (rule order_trans)
  have sorted: "sorted (sort L @ x # sort R)"
    using L R LR by (auto simp: sorted_append)
  have "mset (sort L @ x # sort R) = mset arr" by (subst split) simp
  from properties_for_sort [OF this sorted]
  have "sort arr = sort L @ x # sort R" .
  then have "sort arr ! k = x" using lenL by (simp add: nth_append)
  then show ?thesis using xm by (simp add: k_def)
qed

lemma quick_select_loop_spec:
  fixes arr :: "ucs_time_t list"
  assumes "0 \<le> m"
    and "m < int (length arr)" and "0 \<le> low" and "high < int (length arr)"
    and "int (length arr) \<le> 2 ^ 30"
    and "cut arr low" and "cut arr (high + 1)"
    and "(low \<le> m \<and> m \<le> high) \<or> (settled arr m \<and> (m < low \<or> high < m))"
  shows "\<exists>v arr'. quick_select_loop arr low high m = Some (v, arr') \<and>
      length arr' = length arr \<and> mset arr' = mset arr \<and> settled arr' m \<and> v = el arr' m"
  using assms(2-)
proof (induction "nat (high - low)" arbitrary: arr low high rule: less_induct)
  case less
  note mlen = less.prems(1) and low0 = less.prems(2) and hlen = less.prems(3)
    and small = less.prems(4)
    and cl = less.prems(5) and ch = less.prems(6) and pos = less.prems(7)
  have ibm: "in_bounds arr m" using assms(1) mlen by (simp add: in_bounds_def)
  consider (one) "high \<le> low" | (two) "high = low + 1" | (more) "low + 2 \<le> high"
    by linarith
  then show ?case
  proof cases
    case one
    have res: "quick_select_loop arr low high m = Some (el arr m, arr)"
      using one ibm by (subst quick_select_loop.simps) simp
    have "settled arr m"
    proof (cases "low \<le> m \<and> m \<le> high")
      case True
      then have eq: "low = m" "high = m" using one by simp_all
      show ?thesis
        by (rule settled_in_range [OF cl ch]) (use eq low0 hlen in auto)
    next
      case False
      then show ?thesis using pos by blast
    qed
    with res show ?thesis by simp
  next
    case two
    have ib: "in_bounds arr low" "in_bounds arr high"
      using two low0 hlen by (simp_all add: in_bounds_def)
    from swap_if_greater_props [OF ib, of low high] two low0 hlen
    obtain arr1 where s: "swap_if_greater arr low high = Some arr1"
      and pw: "perm_within arr arr1 low high" and ord: "el arr1 low \<le> el arr1 high"
      by auto
    have len1: "length arr1 = length arr" by (rule perm_within_length [OF pw])
    have ibm1: "in_bounds arr1 m" using ibm len1 by (simp add: in_bounds_def)
    have res: "quick_select_loop arr low high m = Some (el arr1 m, arr1)"
      using two s ibm1 by (subst quick_select_loop.simps) simp
    have cl1: "cut arr1 low" by (rule cut_preserved [OF pw cl _ low0 hlen]) simp
    have ch1: "cut arr1 (high + 1)" by (rule cut_preserved [OF pw ch _ low0 hlen]) simp
    have "settled arr1 m"
    proof (cases "low \<le> m \<and> m \<le> high")
      case True
      then have "m = low \<or> m = high" using two by auto
      then show ?thesis
      proof
        assume e: "m = low"
        have "\<forall>k. m < k \<and> k \<le> high \<longrightarrow> el arr1 m \<le> el arr1 k"
        proof (intro allI impI)
          fix k assume "m < k \<and> k \<le> high"
          then have "k = high" using e two by simp
          then show "el arr1 m \<le> el arr1 k" using ord e by simp
        qed
        then show ?thesis
          by (intro settled_in_range [OF cl1 ch1]) (use e two low0 hlen len1 in auto)
      next
        assume e: "m = high"
        have "\<forall>k. low \<le> k \<and> k < m \<longrightarrow> el arr1 k \<le> el arr1 m"
        proof (intro allI impI)
          fix k assume "low \<le> k \<and> k < m"
          then have "k = low" using e two by simp
          then show "el arr1 k \<le> el arr1 m" using ord e by simp
        qed
        then show ?thesis
          by (intro settled_in_range [OF cl1 ch1]) (use e two low0 hlen len1 in auto)
      qed
    next
      case False
      then have "settled arr m" "m < low \<or> high < m" using pos by auto
      then show ?thesis
        by (intro settled_preserved [OF pw _ _ assms(1) mlen low0 hlen])
    qed
    with res len1 perm_within_mset [OF pw] show ?thesis by simp
  next
    case more
    define middle where "middle = (low + high) div 2"
    have mid: "c_div (low + high) 2 = middle"
      unfolding middle_def by (rule c_div_nonneg) (use low0 more in simp)
    have sum: "int_add low high = Some (low + high)"
      using low0 more hlen small by (simp add: int_add_def INT_MAX_def)
    have mr: "low < middle" "middle < high" using more by (simp_all add: middle_def)
    have rng: "0 \<le> low" "high < int (length arr)" by (fact low0, fact hlen)
    \<comment> \<open>median of three\<close>
    have ib0: "in_bounds arr middle" "in_bounds arr high"
      using mr low0 hlen by (simp_all add: in_bounds_def)
    from swap_if_greater_props [OF ib0, of low high] mr low0 hlen
    obtain a1 where s1: "swap_if_greater arr middle high = Some a1"
      and pw1: "perm_within arr a1 low high" and o1: "el a1 middle \<le> el a1 high"
      by auto
    have len1: "length a1 = length arr" by (rule perm_within_length [OF pw1])
    have ib1: "in_bounds a1 low" "in_bounds a1 high"
      using more low0 hlen len1 by (simp_all add: in_bounds_def)
    from swap_if_greater_props [OF ib1, of low high] more low0 hlen len1
    obtain a2 where s2: "swap_if_greater a1 low high = Some a2"
      and pw2: "perm_within a1 a2 low high" and o2: "el a2 low \<le> el a2 high"
      and u2: "\<forall>k. 0 \<le> k \<and> k < int (length a1) \<and> k \<noteq> low \<and> k \<noteq> high \<longrightarrow> el a2 k = el a1 k"
      and d2: "el a2 low = el a1 low \<and> el a2 high = el a1 high \<or>
               el a2 low = el a1 high \<and> el a2 high = el a1 low"
      by auto
    have len2: "length a2 = length arr" using perm_within_length [OF pw2] len1 by simp
    have m2: "el a2 middle = el a1 middle" using u2 mr low0 hlen len1 by simp
    have "el a1 high \<le> el a2 high" using d2 o2 by auto
    then have o2': "el a2 middle \<le> el a2 high" using o1 m2 by simp
    have ib2: "in_bounds a2 middle" "in_bounds a2 low"
      using mr low0 hlen len2 by (simp_all add: in_bounds_def)
    from swap_if_greater_props [OF ib2, of low high] mr more low0 hlen len2
    obtain a3 where s3: "swap_if_greater a2 middle low = Some a3"
      and pw3: "perm_within a2 a3 low high" and o3: "el a3 middle \<le> el a3 low"
      and u3: "\<forall>k. 0 \<le> k \<and> k < int (length a2) \<and> k \<noteq> middle \<and> k \<noteq> low \<longrightarrow> el a3 k = el a2 k"
      and d3: "el a3 middle = el a2 middle \<and> el a3 low = el a2 low \<or>
               el a3 middle = el a2 low \<and> el a3 low = el a2 middle"
      by auto
    have len3: "length a3 = length arr" using perm_within_length [OF pw3] len2 by simp
    have h3: "el a3 high = el a2 high" using u3 mr more low0 hlen len2 by simp
    have o3': "el a3 low \<le> el a3 high" using d3 o2 o2' h3 by auto
    \<comment> \<open>the smallest of the three goes next to the pivot\<close>
    have ib3: "in_bounds a3 middle" "in_bounds a3 (low + 1)"
      using mr more low0 hlen len3 by (simp_all add: in_bounds_def)
    define a4 where "a4 = a3[nat middle := el a3 (low + 1), nat (low + 1) := el a3 middle]"
    have s4: "ELEM_SWAP a3 middle (low + 1) = Some a4"
      using ib3 by (simp add: ELEM_SWAP_Some a4_def)
    note p4 = ELEM_SWAP_props [OF s4]
    have pw4: "perm_within a3 a4 low high"
      by (rule perm_within_ELEM_SWAP [OF s4]) (use mr more low0 hlen len3 in simp_all)
    have len4: "length a4 = length arr" using p4(1) len3 by simp
    have v4: "el a4 (low + 1) = el a3 middle" "el a4 low = el a3 low" "el a4 high = el a3 high"
      using p4(3) [of "low + 1"] p4(3) [of low] p4(3) [of high] mr more low0 hlen len3
      by simp_all
    have pw04: "perm_within arr a4 low high"
      by (rule perm_within_trans [OF perm_within_trans [OF perm_within_trans [OF pw1 pw2] pw3] pw4])
    \<comment> \<open>partition\<close>
    have left4: "\<forall>k. low < k \<and> k \<le> low + 1 \<longrightarrow> el a4 k \<le> el a4 low"
    proof (intro allI impI)
      fix k assume "low < k \<and> k \<le> low + 1"
      then have "k = low + 1" by simp
      then show "el a4 k \<le> el a4 low" using v4 o3 by simp
    qed
    have right4: "\<forall>k. high \<le> k \<and> k \<le> high \<longrightarrow> el a4 low \<le> el a4 k"
    proof (intro allI impI)
      fix k assume "high \<le> k \<and> k \<le> high"
      then have "k = high" by simp
      then show "el a4 low \<le> el a4 k" using v4 o3' by simp
    qed
    have hlen4: "high < int (length a4)" using hlen len4 by simp
    from partition_loop_spec [OF low0 hlen4 _ _ _ left4 right4] more
    obtain a5 ll hh where part: "partition_loop a4 low (low + 1) high = Some (a5, ll, hh)"
      and pw5: "perm_within a4 a5 (low + 1 + 1) (high - 1)"
      and piv5: "el a5 low = el a4 low"
      and b5: "low \<le> hh" "hh < ll" "low + 1 < ll" "ll \<le> high"
      and left5: "\<forall>k. low < k \<and> k < ll \<longrightarrow> el a5 k \<le> el a5 low"
      and right5: "\<forall>k. hh < k \<and> k \<le> high \<longrightarrow> el a5 low \<le> el a5 k"
      and hh5: "el a5 hh \<le> el a5 low"
      by auto
    have len5: "length a5 = length arr" using perm_within_length [OF pw5] len4 by simp
    have pw5': "perm_within a4 a5 low high"
      by (rule perm_within_widen [OF pw5]) (use low0 hlen4 in simp_all)
    \<comment> \<open>the pivot goes to its place\<close>
    have ib5: "in_bounds a5 low" "in_bounds a5 hh"
      using b5 more low0 hlen len5 by (simp_all add: in_bounds_def)
    define a6 where "a6 = a5[nat low := el a5 hh, nat hh := el a5 low]"
    have s6: "ELEM_SWAP a5 low hh = Some a6"
      using ib5 by (simp add: ELEM_SWAP_Some a6_def)
    note p6 = ELEM_SWAP_props [OF s6]
    have len6: "length a6 = length arr" using p6(1) len5 by simp
    have pw6: "perm_within a5 a6 low high"
      by (rule perm_within_ELEM_SWAP [OF s6]) (use b5 low0 hlen len5 in simp_all)
    have pw06: "perm_within arr a6 low high"
      by (rule perm_within_trans [OF perm_within_trans [OF pw04 pw5'] pw6])
    define p where "p = el a5 low"
    have el6: "el a6 k = (if k = hh then p else if k = low then el a5 hh else el a5 k)"
      if "low \<le> k" "k \<le> high" for k
      using p6(3) [of k] that low0 hlen len5 by (simp add: p_def)
    have G1: "el a6 k \<le> p" if kk: "low \<le> k" "k < ll" for k
    proof -
      have kr: "low \<le> k" "k \<le> high" using kk b5 by simp_all
      consider "k = hh" | "k \<noteq> hh" "k = low" | "k \<noteq> hh" "low < k" using kk by linarith
      then show ?thesis
      proof cases
        case 1
        then show ?thesis using el6 [OF kr] by simp
      next
        case 2
        then show ?thesis using el6 [OF kr] hh5 by (simp add: p_def)
      next
        case 3
        then have "el a6 k = el a5 k" using el6 [OF kr] by simp
        then show ?thesis using left5 3 kk by (simp add: p_def)
      qed
    qed
    have G2: "p \<le> el a6 k" if "hh \<le> k" "k \<le> high" for k
    proof -
      have kr: "low \<le> k" "k \<le> high" using that b5 by simp_all
      show ?thesis
      proof (cases "k = hh")
        case True
        then show ?thesis using el6 [OF kr] by simp
      next
        case False
        then have "hh < k" "k \<noteq> low" using that b5 by simp_all
        then have "el a6 k = el a5 k" using el6 [OF kr] by simp
        then show ?thesis using right5 \<open>hh < k\<close> that by (simp add: p_def)
      qed
    qed
    have cl6: "cut a6 low" by (rule cut_preserved [OF pw06 cl _ low0 hlen]) simp
    have ch6: "cut a6 (high + 1)" by (rule cut_preserved [OF pw06 ch _ low0 hlen]) simp
    have cut_mid: "cut a6 c" if c: "low \<le> c" "c \<le> high + 1"
      and below: "\<forall>k. low \<le> k \<and> k < c \<longrightarrow> el a6 k \<le> p"
      and above: "\<forall>k. c \<le> k \<and> k \<le> high \<longrightarrow> p \<le> el a6 k" for c
      unfolding cut_def
    proof (intro allI impI)
      fix i j assume h: "0 \<le> i \<and> i < c \<and> c \<le> j \<and> j < int (length a6)"
      then have jl: "j < int (length a6)" "0 \<le> i" by simp_all
      show "el a6 i \<le> el a6 j"
      proof (cases "i < low")
        case True
        show ?thesis by (rule cutD [OF cl6 _ True _ jl(1)]) (use h c in simp_all)
      next
        case il: False
        show ?thesis
        proof (cases "j \<le> high")
          case True
          have "el a6 i \<le> p" using below il h by simp
          moreover have "p \<le> el a6 j" using above True h by simp
          ultimately show ?thesis by (rule order_trans)
        next
          case False
          show ?thesis by (rule cutD [OF ch6 jl(2) _ _ jl(1)]) (use h c False in simp_all)
        qed
      qed
    qed
    have cut_ll: "cut a6 ll"
    proof (rule cut_mid)
      show "low \<le> ll" "ll \<le> high + 1" using b5 by simp_all
      show "\<forall>k. low \<le> k \<and> k < ll \<longrightarrow> el a6 k \<le> p" using G1 by simp
      show "\<forall>k. ll \<le> k \<and> k \<le> high \<longrightarrow> p \<le> el a6 k" using G2 b5 by simp
    qed
    have cut_hh: "cut a6 hh"
    proof (rule cut_mid)
      show "low \<le> hh" "hh \<le> high + 1" using b5 by simp_all
      show "\<forall>k. low \<le> k \<and> k < hh \<longrightarrow> el a6 k \<le> p" using G1 b5 by simp
      show "\<forall>k. hh \<le> k \<and> k \<le> high \<longrightarrow> p \<le> el a6 k" using G2 by simp
    qed
    \<comment> \<open>the new partition\<close>
    define low' where "low' = (if hh \<le> m then ll else low)"
    define high' where "high' = (if hh \<ge> m then hh - 1 else high)"
    have unfold: "quick_select_loop arr low high m = quick_select_loop a6 low' high' m"
      using more
      by (subst quick_select_loop.simps)
         (simp add: sum mid s1 s2 s3 s4 part s6 low'_def high'_def)
    have meas: "nat (high' - low') < nat (high - low)"
      using b5 more by (auto simp: low'_def high'_def)
    have mlen6: "m < int (length a6)" using mlen len6 by simp
    have low0': "0 \<le> low'" using low0 b5 by (simp add: low'_def)
    have hlen': "high' < int (length a6)" using hlen b5 len6 by (simp add: high'_def)
    have cl': "cut a6 low'" using cl6 cut_ll by (simp add: low'_def)
    have ch': "cut a6 (high' + 1)" using ch6 cut_hh by (simp add: high'_def)
    have pos': "(low' \<le> m \<and> m \<le> high') \<or> (settled a6 m \<and> (m < low' \<or> high' < m))"
    proof (cases "low \<le> m \<and> m \<le> high")
      case inr: True
      show ?thesis
      proof (cases "hh \<le> m \<and> m < ll")
        case True
        have em_le: "el a6 m \<le> p" using G1 inr True by simp
        have em_ge: "p \<le> el a6 m" using G2 inr True by simp
        have em: "el a6 m = p" using em_le em_ge by (rule order_antisym)
        have "settled a6 m"
        proof (rule settled_in_range [OF cl6 ch6])
          show "low \<le> m" "m \<le> high" using inr by simp_all
          show "0 \<le> low" by (fact low0)
          show "high < int (length a6)" using hlen len6 by simp
          show "\<forall>k. low \<le> k \<and> k < m \<longrightarrow> el a6 k \<le> el a6 m"
            using G1 True em by simp
          show "\<forall>k. m < k \<and> k \<le> high \<longrightarrow> el a6 m \<le> el a6 k"
            using G2 True em by simp
        qed
        moreover have "m < low'" using True by (simp add: low'_def)
        ultimately show ?thesis by blast
      next
        case False
        then have "m < hh \<or> ll \<le> m" by auto
        then have "low' \<le> m \<and> m \<le> high'"
          using inr b5 by (auto simp: low'_def high'_def)
        then show ?thesis by blast
      qed
    next
      case False
      then have st: "settled arr m" and out: "m < low \<or> high < m" using pos by auto
      have "settled a6 m"
        by (rule settled_preserved [OF pw06 st out assms(1) mlen low0 hlen])
      moreover have "m < low' \<or> high' < m"
        using out b5 by (auto simp: low'_def high'_def)
      ultimately show ?thesis by blast
    qed
    have small6: "int (length a6) \<le> 2 ^ 30" using small len6 by simp
    from less.hyps [OF meas mlen6 low0' hlen' small6 cl' ch' pos']
    obtain v arr' where r: "quick_select_loop a6 low' high' m = Some (v, arr')"
      "length arr' = length a6" "mset arr' = mset a6" "settled arr' m" "v = el arr' m"
      by blast
    have "mset arr' = mset arr" using r(3) perm_within_mset [OF pw06] by simp
    with r len6 unfold show ?thesis by simp
  qed
qed

lemma find_median_quick_select_correct:
  fixes arr :: "ucs_time_t list"
  assumes "1 \<le> length arr" and "length arr \<le> 2 ^ 30"
  shows "\<exists>arr'. find_median_quick_select arr (int (length arr)) =
            Some (sort arr ! ((length arr - 1) div 2), arr') \<and>
         mset arr' = mset arr \<and> length arr' = length arr"
proof -
  define n where "n = int (length arr)"
  define m where "m = (n - 1) div 2"
  have n: "1 \<le> n" "n \<le> 2 ^ 30" using assms by (simp_all add: n_def)
  have sum: "int_add 0 (n - 1) = Some (n - 1)"
    using n by (simp add: int_add_def INT_MAX_def)
  have mid: "c_div (n - 1) 2 = m"
    unfolding m_def by (rule c_div_nonneg) (use n in simp)
  have unfold: "find_median_quick_select arr n = quick_select_loop arr 0 (n - 1) m"
    by (simp add: find_median_quick_select_def sum mid)
  have m: "0 \<le> m" "m < n" "m \<le> n - 1" using n by (simp_all add: m_def)
  have c0: "cut arr 0" by (auto simp add: cut_def)
  have cn: "cut arr (n - 1 + 1)" by (auto simp add: cut_def n_def)
  have "(0 \<le> m \<and> m \<le> n - 1) \<or> (settled arr m \<and> (m < 0 \<or> n - 1 < m))"
    using m by simp
  from quick_select_loop_spec [OF m(1) _ _ _ _ c0 cn this] m n
  obtain v arr' where r: "quick_select_loop arr 0 (n - 1) m = Some (v, arr')"
    "length arr' = length arr" "mset arr' = mset arr" "settled arr' m" "v = el arr' m"
    unfolding n_def by auto
  have "sort arr' ! nat m = el arr' m"
    by (rule settled_sort_nth [OF r(4) m(1)]) (use m r(2) in \<open>simp add: n_def\<close>)
  moreover have "sort arr' = sort arr"
    using r(3) by (metis sorted_list_of_multiset_mset)
  moreover have "nat m = (length arr - 1) div 2"
    using assms(1) by (simp add: m_def n_def nat_div_distrib of_nat_diff)
  ultimately have "v = sort arr ! ((length arr - 1) div 2)" using r(5) by simp
  with r unfold show ?thesis by (simp add: n_def)
qed


subsection \<open>Endpoint bring-up\<close>





text \<open>
  The exit through \<^verbatim>\<open>ucs_fatal\<close>: with \<open>VERBOSE\<close> set, a failed remote-key unpack ends the
  process; no status is posted and no endpoint is destroyed.
\<close>

lemma setup_endpoints_fatal_exit:
  "ucp_perf_test_setup_endpoints
     (example_perf \<lparr> params := example_params \<lparr> flags := {UCX_PERF_TEST_FLAG_VERBOSE} \<rparr> \<rparr>)
     {UCP_FEATURE_RMA} example_outcomes_unpack_fails [UCS_OK, UCS_OK] 0 =
     Inl (Fatal_rkey_unpack_failed UCS_ERR_IO_ERROR)"
  by (simp add: ucp_perf_test_setup_endpoints_def example_outcomes_unpack_fails_def
      example_params_def setup_peers_loop.simps Let_def)

text \<open>
  C10. For every requested thread mode other than \<open>MULTI\<close> (also \<open>SERIALIZED\<close>, and also when
  the thread-mode field is absent) the worker is created with lock type \<open>NONE\<close> and a query
  of the thread mode reports \<open>SINGLE\<close>; a query reports \<open>MULTI\<close> exactly when the worker was
  created with thread mode \<open>MULTI\<close>.
\<close>

theorem C10_thread_mode_query:
  "(worker_thread_mode wparams \<noteq> UCS_THREAD_MODE_MULTI \<longrightarrow>
      ucp_worker_create_mt_type use_mt_mutex wparams = UCP_MT_TYPE_NONE \<and>
      ucp_worker_query (ucp_worker_create_mt_type use_mt_mutex wparams) True old =
        (UCS_OK, UCS_THREAD_MODE_SINGLE)) \<and>
   (ucp_worker_query (ucp_worker_create_mt_type use_mt_mutex wparams) True old =
        (UCS_OK, UCS_THREAD_MODE_MULTI)
      \<longleftrightarrow> field_mask_thread_mode wparams \<and>
          worker_thread_mode_param wparams = UCS_THREAD_MODE_MULTI)"
  by (simp add: worker_thread_mode_def ucp_worker_create_mt_type_def
      UCP_THREAD_IS_REQUIRED_def ucp_worker_query_def)

theorem C10_thread_mode_query_witness:
  "worker_thread_mode \<lparr>field_mask_thread_mode = True, worker_thread_mode_param = UCS_THREAD_MODE_SERIALIZED\<rparr>
     \<noteq> UCS_THREAD_MODE_MULTI \<and>
   ucp_worker_create_mt_type True
     \<lparr>field_mask_thread_mode = True, worker_thread_mode_param = UCS_THREAD_MODE_SERIALIZED\<rparr> = UCP_MT_TYPE_NONE \<and>
   ucp_worker_query (ucp_worker_create_mt_type True
     \<lparr>field_mask_thread_mode = True, worker_thread_mode_param = UCS_THREAD_MODE_SERIALIZED\<rparr>) True
       UCS_THREAD_MODE_MULTI = (UCS_OK, UCS_THREAD_MODE_SINGLE)"
proof -
  have h: "worker_thread_mode \<lparr>field_mask_thread_mode = True,
      worker_thread_mode_param = UCS_THREAD_MODE_SERIALIZED\<rparr> \<noteq> UCS_THREAD_MODE_MULTI"
    by (simp add: worker_thread_mode_def)
  from C10_thread_mode_query [of "\<lparr>field_mask_thread_mode = True,
      worker_thread_mode_param = UCS_THREAD_MODE_SERIALIZED\<rparr>" True UCS_THREAD_MODE_MULTI] h
  show ?thesis by blast
qed

text \<open>
  C6 (as stated, refuted). With threads \<open>0\<close> and \<open>1\<close> both failing, the lowest-indexed
  failing thread is thread \<open>0\<close>, yet the driver returns the status of thread \<open>1\<close>.
\<close>

theorem C6_first_error_counterexample:
  "[UCS_ERR_INVALID_PARAM, UCS_ERR_NO_MEMORY] ! 0 \<noteq> UCS_OK \<and>
   ucx_perf_thread_spawn UCS_OK [UCS_ERR_INVALID_PARAM, UCS_ERR_NO_MEMORY] 2
     \<noteq> [UCS_ERR_INVALID_PARAM, UCS_ERR_NO_MEMORY] ! 0"
  by (simp add: ucx_perf_thread_spawn_def thread_status_loop.simps)

text \<open>
  C6 (amended). When setup succeeded and one or more threads finish with a non-OK status in
  the shared array, the driver returns a non-OK status, and it is the status of the
  highest-indexed failing thread (the last such error wins).
\<close>

theorem C6_last_error_wins:
  assumes "length statuses = nti" and "\<exists>i<nti. statuses ! i \<noteq> UCS_OK"
  shows "ucx_perf_thread_spawn UCS_OK statuses nti \<noteq> UCS_OK \<and>
         (\<exists>i<nti. statuses ! i \<noteq> UCS_OK \<and>
                  (\<forall>j. i < j \<and> j < nti \<longrightarrow> statuses ! j = UCS_OK) \<and>
                  ucx_perf_thread_spawn UCS_OK statuses nti = statuses ! i)"
proof -
  from greatest_failing_index [of nti "\<lambda>i. statuses ! i \<noteq> UCS_OK", OF assms(2)]
  obtain i where i: "i < nti" "statuses ! i \<noteq> UCS_OK"
    "\<forall>j. i < j \<and> j < nti \<longrightarrow> statuses ! j = UCS_OK" by auto
  have "thread_status_loop statuses nti 0 UCS_OK = statuses ! i"
    by (rule thread_status_loop_last) (use i in auto)
  then have "ucx_perf_thread_spawn UCS_OK statuses nti = statuses ! i"
    by (simp add: ucx_perf_thread_spawn_def)
  with i show ?thesis by auto
qed

theorem C6_last_error_wins_witness:
  "ucx_perf_thread_spawn UCS_OK [UCS_ERR_INVALID_PARAM, UCS_OK, UCS_ERR_NO_MEMORY, UCS_OK] 4
     \<noteq> UCS_OK \<and>
   (\<exists>i<4. [UCS_ERR_INVALID_PARAM, UCS_OK, UCS_ERR_NO_MEMORY, UCS_OK] ! i \<noteq> UCS_OK \<and>
      (\<forall>j. i < j \<and> j < 4 \<longrightarrow>
           [UCS_ERR_INVALID_PARAM, UCS_OK, UCS_ERR_NO_MEMORY, UCS_OK] ! j = UCS_OK) \<and>
      ucx_perf_thread_spawn UCS_OK [UCS_ERR_INVALID_PARAM, UCS_OK, UCS_ERR_NO_MEMORY, UCS_OK] 4
        = [UCS_ERR_INVALID_PARAM, UCS_OK, UCS_ERR_NO_MEMORY, UCS_OK] ! i)"
proof -
  have len: "length [UCS_ERR_INVALID_PARAM, UCS_OK, UCS_ERR_NO_MEMORY, UCS_OK] = 4" by simp
  have ex: "\<exists>i<4. [UCS_ERR_INVALID_PARAM, UCS_OK, UCS_ERR_NO_MEMORY, UCS_OK] ! i \<noteq> UCS_OK"
    by (intro exI [of _ 0]) simp
  from C6_last_error_wins [OF len ex] show ?thesis .
qed



text \<open>
  C7. After \<^verbatim>\<open>ucx_perf_test_reset(perf, params)\<close>: the current counters \<open>time\<close>, \<open>msgs\<close>,
  \<open>bytes\<close>, \<open>iters\<close> are zero; every slot of the timing ring and the ring head are zero;
  \<open>end_time\<close> is \<open>start_time\<close> plus \<open>max_time\<close> (in clock ticks) when \<open>max_time\<close> is not \<open>0.0\<close>
  and \<open>UINT64_MAX\<close> when it is; the context's \<open>max_iter\<close> is the parameter's when that is not
  zero and \<open>UINT64_MAX\<close> when it is.
\<close>

theorem C7_reset:
  assumes "length (timing_queue perf) = TIMING_QUEUE_SIZE"
  shows "time (current (ucx_perf_test_reset ops TIMING_QUEUE_SIZE now perf prms)) = 0 \<and>
         msgs (current (ucx_perf_test_reset ops TIMING_QUEUE_SIZE now perf prms)) = 0 \<and>
         bytes (current (ucx_perf_test_reset ops TIMING_QUEUE_SIZE now perf prms)) = 0 \<and>
         iters (current (ucx_perf_test_reset ops TIMING_QUEUE_SIZE now perf prms)) = 0 \<and>
         length (timing_queue (ucx_perf_test_reset ops TIMING_QUEUE_SIZE now perf prms))
           = TIMING_QUEUE_SIZE \<and>
         (\<forall>i<TIMING_QUEUE_SIZE.
            timing_queue (ucx_perf_test_reset ops TIMING_QUEUE_SIZE now perf prms) ! i = 0) \<and>
         timing_queue_head (ucx_perf_test_reset ops TIMING_QUEUE_SIZE now perf prms) = 0 \<and>
         end_time (ucx_perf_test_reset ops TIMING_QUEUE_SIZE now perf prms) =
           (if d_eq ops (max_time prms) (d_zero ops) then UINT64_MAX
            else start_time (ucx_perf_test_reset ops TIMING_QUEUE_SIZE now perf prms)
                   + ucs_time_from_sec ops (max_time prms)) \<and>
         perf_max_iter (ucx_perf_test_reset ops TIMING_QUEUE_SIZE now perf prms) =
           (if max_iter prms = 0 then UINT64_MAX else max_iter prms)"
  using assms by (simp add: ucx_perf_test_reset_def reset_timing_queue_nth)

theorem C7_reset_witness:
  "length (timing_queue example_perf) = 4 \<and>
   iters (current (ucx_perf_test_reset example_ops 4 100 example_perf example_params)) = 0 \<and>
   timing_queue (ucx_perf_test_reset example_ops 4 100 example_perf example_params) ! 2 = 0 \<and>
   end_time (ucx_perf_test_reset example_ops 4 100 example_perf example_params) = 2100 \<and>
   perf_max_iter (ucx_perf_test_reset example_ops 4 100 example_perf example_params) = 200"
proof -
  have len: "length (timing_queue example_perf) = 4" by (simp add: example_perf_def)
  have st: "start_time (ucx_perf_test_reset example_ops 4 100 example_perf example_params)
      = 100"
    by (simp add: ucx_perf_test_reset_def)
  have two: "(2::nat) < 4" by simp
  from C7_reset [OF len, of example_ops 100 example_params] len st two
  show ?thesis by (simp add: example_ops_def example_params_def)
qed

text \<open>
  C8. Setting up the warmup phase sets the context's iteration bound to
  \<open>min(warmup_iter, max_iter / 10)\<close> and the report interval to its largest value (\<open>-1\<close>),
  which disables reporting. In \<^verbatim>\<open>ucx_perf_run\<close>, when the warmup run returns \<open>UCS_OK\<close>, a
  rendezvous barrier and a reset of the context follow it, and the measured run starts
  from the reset context.
\<close>

theorem C8_warmup:
  assumes "command prms \<noteq> UCX_PERF_CMD_LAST"
    and "api prms = UCX_PERF_API_UCT \<or> api prms = UCX_PERF_API_UCP"
    and "thread_mode prms = UCS_THREAD_MODE_SINGLE"
    and "api_setup (ucx_perf_test_reset ops TIMING_QUEUE_SIZE now1 perf0 prms) prms
           = (UCS_OK, perf2)"
    and "warmup_iter prms > 0"
    and "api_run (ucx_perf_set_warmup perf2 prms) = (UCS_OK, perf4)"
  shows "perf_max_iter (ucx_perf_set_warmup perf2 prms)
           = min (warmup_iter prms) (max_iter prms div 10) \<and>
         perf_report_interval (ucx_perf_set_warmup perf2 prms) = UINT64_MAX \<and>
         (\<exists>post. snd (ucx_perf_run ops TIMING_QUEUE_SIZE now1 now2 api_setup api_run spawn_status
                        perf0 prms) =
            [Ev_reset, Ev_setup, Ev_set_warmup, Ev_run (ucx_perf_set_warmup perf2 prms),
             Ev_barrier, Ev_reset,
             Ev_run (ucx_perf_test_reset ops TIMING_QUEUE_SIZE now2 perf4 prms)] @ post)"
proof -
  have a: "perf_max_iter (ucx_perf_set_warmup perf2 prms)
      = min (warmup_iter prms) (max_iter prms div 10)"
    by (auto simp: ucx_perf_set_warmup_def ucs_min_def min_def)
  have b: "perf_report_interval (ucx_perf_set_warmup perf2 prms) = UINT64_MAX"
    by (simp add: ucx_perf_set_warmup_def UINT64_MAX_def)
  have c: "\<exists>post. snd (ucx_perf_run ops TIMING_QUEUE_SIZE now1 now2 api_setup api_run spawn_status
                        perf0 prms) =
            [Ev_reset, Ev_setup, Ev_set_warmup, Ev_run (ucx_perf_set_warmup perf2 prms),
             Ev_barrier, Ev_reset,
             Ev_run (ucx_perf_test_reset ops TIMING_QUEUE_SIZE now2 perf4 prms)] @ post"
    using assms
    by (auto simp: ucx_perf_run_def ucx_perf_run_test_def Let_def split: prod.splits)
  from a b c show ?thesis by blast
qed

theorem C8_warmup_witness:
  "perf_max_iter (ucx_perf_set_warmup
      (ucx_perf_test_reset example_ops 4 100 example_perf example_params) example_params)
     = 20 \<and>
   (\<exists>post. snd (ucx_perf_run example_ops 4 100 300 example_setup example_run UCS_OK
                  example_perf example_params) =
      [Ev_reset, Ev_setup, Ev_set_warmup,
       Ev_run (ucx_perf_set_warmup
         (ucx_perf_test_reset example_ops 4 100 example_perf example_params) example_params),
       Ev_barrier, Ev_reset,
       Ev_run (ucx_perf_test_reset example_ops 4 300
         (ucx_perf_set_warmup
           (ucx_perf_test_reset example_ops 4 100 example_perf example_params) example_params)
         example_params)] @ post)"
proof -
  have h1: "command example_params \<noteq> UCX_PERF_CMD_LAST"
    and h2: "api example_params = UCX_PERF_API_UCT \<or> api example_params = UCX_PERF_API_UCP"
    and h3: "thread_mode example_params = UCS_THREAD_MODE_SINGLE"
    and h5: "warmup_iter example_params > 0"
    by (simp_all add: example_params_def)
  have h4: "example_setup
      (ucx_perf_test_reset example_ops 4 100 example_perf example_params) example_params
      = (UCS_OK, ucx_perf_test_reset example_ops 4 100 example_perf example_params)"
    by (simp add: example_setup_def)
  have h6: "example_run (ucx_perf_set_warmup
      (ucx_perf_test_reset example_ops 4 100 example_perf example_params) example_params)
      = (UCS_OK, ucx_perf_set_warmup
      (ucx_perf_test_reset example_ops 4 100 example_perf example_params) example_params)"
    by (simp add: example_run_def)
  have m: "min (warmup_iter example_params) (max_iter example_params div 10) = 20"
    by (simp add: example_params_def)
  note inst = C8_warmup [where api_setup = example_setup and api_run = example_run
      and ?now2.0 = 300 and spawn_status = UCS_OK]
  from inst [OF h1 h2 h3 h4 h5 h6] m
  show ?thesis by simp
qed

text \<open>
  C1. On a worker whose configuration cache is well-formed (as \<^verbatim>\<open>ucp_worker_create\<close> leaves
  it and every call keeps it): a call that returns for key \<open>k\<close> returns an index of at most
  255, and every later call for an equal key returns the same index, also after further
  keys were interned, while a different key gets a different index; a key that is not yet
  cached gets the next free index (the entry count, which grows by one), so two distinct
  new keys get successive indices in insertion order; and when the cache already holds
  \<open>ep_config_max\<close> entries and the key is not cached, the call is fatal.
\<close>

theorem C1_ep_config_cache:
  assumes ok: "ep_cache_ok w"
  shows "(\<forall>i w'. ucp_worker_get_ep_config w k = Inr (i, w') \<longrightarrow>
            i \<le> 255 \<and> ep_cache_ok w' \<and> ucp_worker_get_ep_config w' k = Inr (i, w') \<and>
            (\<forall>k2 j w''. ucp_worker_get_ep_config w' k2 = Inr (j, w'') \<longrightarrow>
               ucp_worker_get_ep_config w'' k = Inr (i, w'') \<and> (k2 = k \<longleftrightarrow> j = i))) \<and>
         ((\<forall>j<ep_config_count w. ep_config w ! j \<noteq> k) \<and>
            ep_config_count w < ep_config_max w \<longrightarrow>
            (\<exists>w'. ucp_worker_get_ep_config w k = Inr (ep_config_count w, w') \<and>
                  ep_config_count w' = ep_config_count w + 1 \<and>
                  (\<forall>k2. k2 \<noteq> k \<and> (\<forall>j<ep_config_count w. ep_config w ! j \<noteq> k2) \<and>
                        ep_config_count w + 1 < ep_config_max w \<longrightarrow>
                        (\<exists>w''. ucp_worker_get_ep_config w' k2
                                 = Inr (ep_config_count w + 1, w''))))) \<and>
         ((\<forall>j<ep_config_count w. ep_config w ! j \<noteq> k) \<and>
            ep_config_count w = ep_config_max w \<longrightarrow>
            ucp_worker_get_ep_config w k = Inl Fatal_too_many_ep_configurations)"
proof -
  have a: "\<forall>i w'. ucp_worker_get_ep_config w k = Inr (i, w') \<longrightarrow>
            i \<le> 255 \<and> ep_cache_ok w' \<and> ucp_worker_get_ep_config w' k = Inr (i, w') \<and>
            (\<forall>k2 j w''. ucp_worker_get_ep_config w' k2 = Inr (j, w'') \<longrightarrow>
               ucp_worker_get_ep_config w'' k = Inr (i, w'') \<and> (k2 = k \<longleftrightarrow> j = i))"
  proof (intro allI impI)
    fix i w' assume g: "ucp_worker_get_ep_config w k = Inr (i, w')"
    note f = get_ep_config_Inr [OF ok g]
    have i255: "i \<le> 255" using f by (simp add: ep_cache_ok_def)
    have again: "ucp_worker_get_ep_config w' k = Inr (i, w')"
      by (rule get_ep_config_found) (use f in auto)
    have stable: "\<forall>k2 j w''. ucp_worker_get_ep_config w' k2 = Inr (j, w'') \<longrightarrow>
                 ucp_worker_get_ep_config w'' k = Inr (i, w'') \<and> (k2 = k \<longleftrightarrow> j = i)"
    proof (intro allI impI)
      fix k2 j w'' assume g2: "ucp_worker_get_ep_config w' k2 = Inr (j, w'')"
      have okw': "ep_cache_ok w'" using f by simp
      note f2 = get_ep_config_Inr [OF okw' g2]
      have st: "ucp_worker_get_ep_config w'' k = Inr (i, w'')"
        by (rule get_ep_config_found) (use f f2 in auto)
      have "k2 = k \<Longrightarrow> j = i" using g2 again by simp
      moreover have "j = i \<Longrightarrow> k2 = k"
      proof -
        assume "j = i"
        then have "ep_config w'' ! i = k2" using f2 by simp
        moreover have "ep_config w'' ! i = ep_config w' ! i" using f f2 by simp
        ultimately show "k2 = k" using f by simp
      qed
      ultimately show "ucp_worker_get_ep_config w'' k = Inr (i, w'') \<and> (k2 = k \<longleftrightarrow> j = i)"
        using st by blast
    qed
    from i255 f again stable
    show "i \<le> 255 \<and> ep_cache_ok w' \<and> ucp_worker_get_ep_config w' k = Inr (i, w') \<and>
              (\<forall>k2 j w''. ucp_worker_get_ep_config w' k2 = Inr (j, w'') \<longrightarrow>
                 ucp_worker_get_ep_config w'' k = Inr (i, w'') \<and> (k2 = k \<longleftrightarrow> j = i))"
      by blast
  qed
  have b: "(\<forall>j<ep_config_count w. ep_config w ! j \<noteq> k) \<and>
            ep_config_count w < ep_config_max w \<longrightarrow>
            (\<exists>w'. ucp_worker_get_ep_config w k = Inr (ep_config_count w, w') \<and>
                  ep_config_count w' = ep_config_count w + 1 \<and>
                  (\<forall>k2. k2 \<noteq> k \<and> (\<forall>j<ep_config_count w. ep_config w ! j \<noteq> k2) \<and>
                        ep_config_count w + 1 < ep_config_max w \<longrightarrow>
                        (\<exists>w''. ucp_worker_get_ep_config w' k2
                                 = Inr (ep_config_count w + 1, w''))))"
  proof (intro impI, elim conjE)
    assume none: "\<forall>j<ep_config_count w. ep_config w ! j \<noteq> k"
      and lt: "ep_config_count w < ep_config_max w"
    define w' where "w' = w\<lparr> ep_config := (ep_config w)[ep_config_count w := k],
              ep_config_count := ep_config_count w + 1 \<rparr>"
    have g: "ucp_worker_get_ep_config w k = Inr (ep_config_count w, w')"
      using get_ep_config_new [OF none] lt by (simp add: w'_def)
    have cnt: "ep_config_count w' = ep_config_count w + 1" by (simp add: w'_def)
    have mx: "ep_config_max w' = ep_config_max w" by (simp add: w'_def)
    have len: "ep_config_count w < length (ep_config w)"
      using ok lt by (simp add: ep_cache_ok_def)
    have nxt: "\<forall>k2. k2 \<noteq> k \<and> (\<forall>j<ep_config_count w. ep_config w ! j \<noteq> k2) \<and>
                        ep_config_count w + 1 < ep_config_max w \<longrightarrow>
                        (\<exists>w''. ucp_worker_get_ep_config w' k2
                                 = Inr (ep_config_count w + 1, w''))"
    proof (intro allI impI, elim conjE)
      fix k2 assume ne: "k2 \<noteq> k"
        and none2: "\<forall>j<ep_config_count w. ep_config w ! j \<noteq> k2"
        and room: "ep_config_count w + 1 < ep_config_max w"
      have "\<forall>j<ep_config_count w'. ep_config w' ! j \<noteq> k2"
        using ne none2 len by (auto simp: w'_def nth_list_update less_Suc_eq)
      from get_ep_config_new [OF this] room
      show "\<exists>w''. ucp_worker_get_ep_config w' k2 = Inr (ep_config_count w + 1, w'')"
        by (simp add: cnt mx)
    qed
    from g cnt nxt
    show "\<exists>w'. ucp_worker_get_ep_config w k = Inr (ep_config_count w, w') \<and>
                  ep_config_count w' = ep_config_count w + 1 \<and>
                  (\<forall>k2. k2 \<noteq> k \<and> (\<forall>j<ep_config_count w. ep_config w ! j \<noteq> k2) \<and>
                        ep_config_count w + 1 < ep_config_max w \<longrightarrow>
                        (\<exists>w''. ucp_worker_get_ep_config w' k2
                                 = Inr (ep_config_count w + 1, w'')))"
      by blast
  qed
  have c: "(\<forall>j<ep_config_count w. ep_config w ! j \<noteq> k) \<and>
            ep_config_count w = ep_config_max w \<longrightarrow>
            ucp_worker_get_ep_config w k = Inl Fatal_too_many_ep_configurations"
  proof (intro impI, elim conjE)
    assume none: "\<forall>j<ep_config_count w. ep_config w ! j \<noteq> k"
      and full: "ep_config_count w = ep_config_max w"
    from get_ep_config_new [OF none] full
    show "ucp_worker_get_ep_config w k = Inl Fatal_too_many_ep_configurations" by simp
  qed
  show ?thesis by (rule conjI [OF a conjI [OF b c]])
qed

theorem C1_ep_config_cache_witness:
  "ep_cache_ok (ucp_worker_create_ep_cache 2 (0::nat)) \<and>
   (\<exists>w' w''. ucp_worker_get_ep_config (ucp_worker_create_ep_cache 2 (0::nat)) 7 = Inr (0, w') \<and>
      ucp_worker_get_ep_config w' 7 = Inr (0, w') \<and>
      ucp_worker_get_ep_config w' 9 = Inr (1, w'') \<and>
      ucp_worker_get_ep_config w'' 7 = Inr (0, w''))"
proof -
  let ?w = "ucp_worker_create_ep_cache 2 (0::nat)"
  have ok: "ep_cache_ok ?w" by (rule ucp_worker_create_ep_cache_ok)
  have cnt: "ep_config_count ?w = 0" and mx: "ep_config_max ?w = 18"
    by (simp_all add: ucp_worker_create_ep_cache_def Let_def ucs_min_def UINT8_MAX_def)
  note inst = C1_ep_config_cache [OF ok, of 7]
  have none: "\<forall>j<ep_config_count ?w. ep_config ?w ! j \<noteq> 7" by (simp add: cnt)
  have room: "ep_config_count ?w < ep_config_max ?w" by (simp add: cnt mx)
  from inst [THEN conjunct2, THEN conjunct1] none room
  obtain w' where w': "ucp_worker_get_ep_config ?w 7 = Inr (ep_config_count ?w, w')"
    and nxt: "\<forall>k2. k2 \<noteq> 7 \<and> (\<forall>j<ep_config_count ?w. ep_config ?w ! j \<noteq> k2) \<and>
                ep_config_count ?w + 1 < ep_config_max ?w \<longrightarrow>
                (\<exists>w''. ucp_worker_get_ep_config w' k2 = Inr (ep_config_count ?w + 1, w''))"
    by blast
  have "(9::nat) \<noteq> 7 \<and> (\<forall>j<ep_config_count ?w. ep_config ?w ! j \<noteq> 9) \<and>
      ep_config_count ?w + 1 < ep_config_max ?w"
    by (simp add: cnt mx)
  with nxt obtain w'' where
    w'': "ucp_worker_get_ep_config w' 9 = Inr (ep_config_count ?w + 1, w'')"
    by blast
  from inst [THEN conjunct1, rule_format, OF w']
  have again: "ucp_worker_get_ep_config w' 7 = Inr (ep_config_count ?w, w')"
    and st: "\<forall>k2 j w''. ucp_worker_get_ep_config w' k2 = Inr (j, w'') \<longrightarrow>
        ucp_worker_get_ep_config w'' 7 = Inr (ep_config_count ?w, w'') \<and>
        (k2 = 7 \<longleftrightarrow> j = ep_config_count ?w)"
    by blast+
  from st [rule_format, OF w'']
  have later: "ucp_worker_get_ep_config w'' 7 = Inr (ep_config_count ?w, w'')" by blast
  from ok w' again w'' later show ?thesis unfolding cnt by auto
qed

text \<open>
  C9 (as stated, refuted). The features include 64-bit atomics, the policy is CPU, and the
  only interface does not advertise host-based atomics: the mask stays empty.
\<close>

theorem C9_empty_mask_counterexample:
  "features example_context \<inter> {UCP_FEATURE_AMO32, UCP_FEATURE_AMO64} \<noteq> {} \<and>
   ucp_worker_init_atomic_tls example_ops (\<lambda>j. 1) 32 example_context example_iface_attrs
     = Inr 0"
  by (simp add: example_context_def example_iface_attrs_def ucp_worker_init_atomic_tls_def
      ucp_worker_init_cpu_atomics_def cpu_atomics_loop.simps)

text \<open>
  C9 (amended). With at most 64 transport resources: when the feature set omits atomics
  the mask is empty; when it includes 32-bit or 64-bit atomics, the mask is non-empty
  exactly when a resource qualifies under the policy - under CPU an interface that
  advertises host-based atomics, under DEVICE a resource capable of device atomics that
  beats the initial best, under GUESS the DEVICE condition if some interface advertises
  device atomics and the CPU condition otherwise. So the mask can be empty although the
  features include atomics.
\<close>

theorem C9_atomic_tls_nonempty_iff:
  assumes "num_tls c \<le> 64"
  shows "(features c \<inter> {UCP_FEATURE_AMO32, UCP_FEATURE_AMO64} = {} \<longrightarrow>
            ucp_worker_init_atomic_tls ops sc n c attrs = Inr 0) \<and>
         (features c \<inter> {UCP_FEATURE_AMO32, UCP_FEATURE_AMO64} \<noteq> {} \<and>
          atomic_mode c = UCP_ATOMIC_MODE_CPU \<longrightarrow>
            (\<exists>m. ucp_worker_init_atomic_tls ops sc n c attrs = Inr m \<and>
                 (m \<noteq> 0 \<longleftrightarrow>
                    (\<exists>j<num_tls c. UCT_IFACE_FLAG_ATOMIC_CPU \<in> cap_flags (attrs ! j))))) \<and>
         (features c \<inter> {UCP_FEATURE_AMO32, UCP_FEATURE_AMO64} \<noteq> {} \<and>
          atomic_mode c = UCP_ATOMIC_MODE_DEVICE \<longrightarrow>
            (\<exists>m. ucp_worker_init_atomic_tls ops sc n c attrs = Inr m \<and>
                 (m \<noteq> 0 \<longleftrightarrow>
                    (\<exists>j<num_tls c. atomic_device_capable c attrs j \<and>
                                   beats_initial_best ops sc attrs j)))) \<and>
         (features c \<inter> {UCP_FEATURE_AMO32, UCP_FEATURE_AMO64} \<noteq> {} \<and>
          atomic_mode c = UCP_ATOMIC_MODE_GUESS \<longrightarrow>
            (\<exists>m. ucp_worker_init_atomic_tls ops sc n c attrs = Inr m \<and>
                 (m \<noteq> 0 \<longleftrightarrow>
                    (if \<exists>j<num_tls c. UCT_IFACE_FLAG_ATOMIC_DEVICE \<in> cap_flags (attrs ! j)
                     then \<exists>j<num_tls c. atomic_device_capable c attrs j \<and>
                                        beats_initial_best ops sc attrs j
                     else \<exists>j<num_tls c. UCT_IFACE_FLAG_ATOMIC_CPU \<in> cap_flags (attrs ! j)))))"
proof -
  note cpu = cpu_atomics_nonempty [OF assms, of attrs]
  note dev = device_atomics_nonempty [OF assms, of ops sc n attrs]
  have acc: "UCT_IFACE_FLAG_ATOMIC_DEVICE \<in> accumulate_flags_loop c attrs 0 {} \<longleftrightarrow>
      (\<exists>j<num_tls c. UCT_IFACE_FLAG_ATOMIC_DEVICE \<in> cap_flags (attrs ! j))"
    by (simp add: accumulate_flags_loop_mem)
  have a: "features c \<inter> {UCP_FEATURE_AMO32, UCP_FEATURE_AMO64} = {} \<longrightarrow>
            ucp_worker_init_atomic_tls ops sc n c attrs = Inr 0"
    by (simp add: ucp_worker_init_atomic_tls_def)
  have b: "features c \<inter> {UCP_FEATURE_AMO32, UCP_FEATURE_AMO64} \<noteq> {} \<and>
          atomic_mode c = UCP_ATOMIC_MODE_CPU \<longrightarrow>
            (\<exists>m. ucp_worker_init_atomic_tls ops sc n c attrs = Inr m \<and>
                 (m \<noteq> 0 \<longleftrightarrow>
                    (\<exists>j<num_tls c. UCT_IFACE_FLAG_ATOMIC_CPU \<in> cap_flags (attrs ! j))))"
    using cpu by (simp add: ucp_worker_init_atomic_tls_def)
  have d: "features c \<inter> {UCP_FEATURE_AMO32, UCP_FEATURE_AMO64} \<noteq> {} \<and>
          atomic_mode c = UCP_ATOMIC_MODE_DEVICE \<longrightarrow>
            (\<exists>m. ucp_worker_init_atomic_tls ops sc n c attrs = Inr m \<and>
                 (m \<noteq> 0 \<longleftrightarrow>
                    (\<exists>j<num_tls c. atomic_device_capable c attrs j \<and>
                                   beats_initial_best ops sc attrs j)))"
    using dev by (simp add: ucp_worker_init_atomic_tls_def)
  have g: "features c \<inter> {UCP_FEATURE_AMO32, UCP_FEATURE_AMO64} \<noteq> {} \<and>
          atomic_mode c = UCP_ATOMIC_MODE_GUESS \<longrightarrow>
            (\<exists>m. ucp_worker_init_atomic_tls ops sc n c attrs = Inr m \<and>
                 (m \<noteq> 0 \<longleftrightarrow>
                    (if \<exists>j<num_tls c. UCT_IFACE_FLAG_ATOMIC_DEVICE \<in> cap_flags (attrs ! j)
                     then \<exists>j<num_tls c. atomic_device_capable c attrs j \<and>
                                        beats_initial_best ops sc attrs j
                     else \<exists>j<num_tls c. UCT_IFACE_FLAG_ATOMIC_CPU \<in> cap_flags (attrs ! j))))"
  proof -
    define D where "D \<longleftrightarrow> (\<exists>j<num_tls c. UCT_IFACE_FLAG_ATOMIC_DEVICE \<in> cap_flags (attrs ! j))"
    have accD: "UCT_IFACE_FLAG_ATOMIC_DEVICE \<in> accumulate_flags_loop c attrs 0 {} \<longleftrightarrow> D"
      unfolding D_def by (rule acc)
    have guess: "ucp_worker_init_guess_atomics ops sc n c attrs 0 =
        (if D then ucp_worker_init_device_atomics ops sc n c attrs 0
         else ucp_worker_init_cpu_atomics c attrs 0)"
      by (simp add: ucp_worker_init_guess_atomics_def accD)
    have "features c \<inter> {UCP_FEATURE_AMO32, UCP_FEATURE_AMO64} \<noteq> {} \<and>
          atomic_mode c = UCP_ATOMIC_MODE_GUESS \<longrightarrow>
            (\<exists>m. ucp_worker_init_atomic_tls ops sc n c attrs = Inr m \<and>
                 (m \<noteq> 0 \<longleftrightarrow>
                    (if D
                     then \<exists>j<num_tls c. atomic_device_capable c attrs j \<and>
                                        beats_initial_best ops sc attrs j
                     else \<exists>j<num_tls c. UCT_IFACE_FLAG_ATOMIC_CPU \<in> cap_flags (attrs ! j))))"
      using cpu dev by (cases D) (simp_all add: ucp_worker_init_atomic_tls_def guess)
    then show ?thesis unfolding D_def .
  qed
  show ?thesis by (rule conjI [OF a conjI [OF b conjI [OF d g]]])
qed

theorem C9_atomic_tls_nonempty_iff_witness:
  "num_tls example_context2 \<le> 64 \<and>
   (\<exists>m. ucp_worker_init_atomic_tls example_ops (\<lambda>j. 1) 32 example_context2
           example_iface_attrs2 = Inr m \<and> m \<noteq> 0)"
proof -
  have n: "num_tls example_context2 \<le> 64" by (simp add: example_context2_def)
  have f: "features example_context2 \<inter> {UCP_FEATURE_AMO32, UCP_FEATURE_AMO64} \<noteq> {} \<and>
      atomic_mode example_context2 = UCP_ATOMIC_MODE_CPU"
    by (simp add: example_context2_def)
  have j: "\<exists>j<num_tls example_context2.
      UCT_IFACE_FLAG_ATOMIC_CPU \<in> cap_flags (example_iface_attrs2 ! j)"
    by (intro exI [of _ 1]) (simp add: example_context2_def example_iface_attrs2_def)
  from C9_atomic_tls_nonempty_iff [OF n, of example_ops "\<lambda>j. 1" 32 example_iface_attrs2,
      THEN conjunct2, THEN conjunct1, rule_format, OF f] j n
  show ?thesis by blast
qed




text \<open>
  C3. For every array of \<open>n \<ge> 1\<close> elements, \<^verbatim>\<open>__find_median_quick_select(arr, n)\<close> returns
  the element that stands at index \<open>(n - 1) div 2\<close> when the original contents are sorted
  in nondecreasing order, and it works in place: the array it leaves is a rearrangement
  of the original one. The length is at most \<open>2 ^ 30\<close>, so that every sum \<^verbatim>\<open>low + high\<close> of
  two indices is an \<^verbatim>\<open>int\<close>.
\<close>

theorem C3_quick_select_median:
  fixes arr :: "ucs_time_t list"
  assumes "1 \<le> length arr" and "length arr \<le> 2 ^ 30"
  shows "\<exists>arr'. find_median_quick_select arr (int (length arr)) =
            Some (sort arr ! ((length arr - 1) div 2), arr') \<and>
         mset arr' = mset arr \<and> length arr' = length arr"
  using assms by (rule find_median_quick_select_correct)

text \<open>The selection on the five values 5, 3, 9, 1, 7, whose median is 5.\<close>

theorem C3_quick_select_median_witness:
  "1 \<le> length [5, 3, 9, 1, 7 :: ucs_time_t] \<and>
   length [5, 3, 9, 1, 7 :: ucs_time_t] \<le> 2 ^ 30 \<and>
   sort [5, 3, 9, 1, 7 :: ucs_time_t] ! ((length [5, 3, 9, 1, 7 :: ucs_time_t] - 1) div 2) = 5 \<and>
   (\<exists>arr'. find_median_quick_select [5, 3, 9, 1, 7] 5 = Some (5, arr') \<and>
      mset arr' = mset [5, 3, 9, 1, 7])"
proof -
  have a: "1 \<le> length [5, 3, 9, 1, 7 :: ucs_time_t]" by simp
  have b: "length [5, 3, 9, 1, 7 :: ucs_time_t] \<le> 2 ^ 30" by simp
  have c: "sort [5, 3, 9, 1, 7 :: ucs_time_t] ! ((length [5, 3, 9, 1, 7 :: ucs_time_t] - 1) div 2) = 5"
    by code_simp
  from C3_quick_select_median [OF a b] c
  have "\<exists>arr'. find_median_quick_select [5, 3, 9, 1, 7] 5 = Some (5, arr') \<and>
      mset arr' = mset [5, 3, 9, 1, 7]" by auto
  with a b c show ?thesis by blast
qed

text \<open>
  C2. \<^verbatim>\<open>ucx_perf_calc_result\<close> copies \<open>current.iters\<close> and \<open>current.bytes\<close> to the result, sets
  \<open>latency.typical\<close> to the median of all \<^verbatim>\<open>TIMING_QUEUE_SIZE\<close> slots of the timing ring
  (the element at index \<open>(TIMING_QUEUE_SIZE - 1) div 2\<close> of the sorted ring) divided by the
  number of clock ticks in a second and then by 2 for a ping-pong test and by 1
  otherwise, and sets \<open>bandwidth.typical\<close> and \<open>msgrate.typical\<close> to 0.
\<close>

theorem C2_calc_result:
  assumes "length (timing_queue perf) = TIMING_QUEUE_SIZE"
    and "1 \<le> TIMING_QUEUE_SIZE" and "TIMING_QUEUE_SIZE \<le> 2 ^ 30"
  shows "\<exists>perf' result.
      ucx_perf_calc_result ops TIMING_QUEUE_SIZE perf = Some (perf', result) \<and>
      result_iters result = iters (current perf) \<and>
      result_bytes result = bytes (current perf) \<and>
      typical (latency result) =
        d_div ops
          (d_div ops
            (d_of_u64 ops (sort (timing_queue perf) ! ((TIMING_QUEUE_SIZE - 1) div 2)))
            (d_of_u64 ops (ucs_time_from_sec ops (d_one ops))))
          (if test_type (params perf) = UCX_PERF_TEST_TYPE_PINGPONG
           then d_two ops else d_one ops) \<and>
      typical (bandwidth result) = d_zero ops \<and>
      typical (msgrate result) = d_zero ops"
proof -
  from find_median_quick_select_correct [of "timing_queue perf"] assms
  obtain tq where
    "find_median_quick_select (timing_queue perf) (int TIMING_QUEUE_SIZE) =
       Some (sort (timing_queue perf) ! ((TIMING_QUEUE_SIZE - 1) div 2), tq)"
    by auto
  then show ?thesis
    by (simp add: ucx_perf_calc_result_def Let_def)
qed

text \<open>
  The instance: the ring holds 30000, 10000, 40000 and 20000 ticks, a second has 1000
  ticks and the test is a ping-pong, so the typical latency is \<open>20000 / 1000 / 2\<close>.
\<close>

theorem C2_calc_result_witness:
  "length (timing_queue example_perf) = 4 \<and>
   sort (timing_queue example_perf) ! ((4 - 1) div 2) = 20000 \<and>
   (\<exists>perf' result.
      ucx_perf_calc_result example_ops 4 example_perf = Some (perf', result) \<and>
      result_iters result = 5 \<and> result_bytes result = 40 \<and>
      typical (latency result) = 10 \<and>
      typical (bandwidth result) = 0 \<and> typical (msgrate result) = 0)"
proof -
  have len: "length (timing_queue example_perf) = 4" by (simp add: example_perf_def)
  have srt: "sort (timing_queue example_perf) ! ((4 - 1) div 2) = 20000"
    by code_simp
  from C2_calc_result [OF len, of example_ops] srt
  have "\<exists>perf' result.
      ucx_perf_calc_result example_ops 4 example_perf = Some (perf', result) \<and>
      result_iters result = 5 \<and> result_bytes result = 40 \<and>
      typical (latency result) = 10 \<and>
      typical (bandwidth result) = 0 \<and> typical (msgrate result) = 0"
    by (simp add: example_ops_def example_perf_def example_params_def)
  with len srt show ?thesis by blast
qed

end
